theory Spec2Isabelle
  imports Complex_Main "HOL-Library.Log_Nat"
begin

section \<open>Python values used by the fact checker\<close>

text \<open>
  Texts are Python \<open>str\<close> values. They are modelled as \<^typ>\<open>string\<close>, that is as lists
  of the code points below 256. In that range the class \<open>\d\<close> of the \<open>re\<close> module
  matches exactly the ten ASCII digits, and \<open>str.strip\<close> removes the characters listed in
  \<open>py_isspace\<close> below.
\<close>

datatype py_error = IndexError | KeyError | AttributeError | ZeroDivisionError

subsection \<open>Floats\<close>

text \<open>
  A Python \<open>float\<close> is an IEEE 754 binary64 number. A finite one is modelled by the rational
  it denotes; the two zeros are identified (no operation used by the fact checker tells them
  apart). Arithmetic rounds to nearest, ties to even, with 53 significant bits, a smallest
  exponent of \<open>-1074\<close> for the last place, and overflow to an infinity from \<open>2^1024\<close> on.
\<close>

datatype pyfloat = Finite rat | PosInf | NegInf | NaN

definition floor_log2 :: "rat \<Rightarrow> int" where
  \<comment> \<open>the integer \<open>k\<close> with \<open>2^k \<le> a < 2^(k+1)\<close>, for positive \<open>a\<close>\<close>
  "floor_log2 a =
     (if 1 \<le> a then int (floorlog 2 (nat \<lfloor>a\<rfloor>)) - 1
      else - int (floorlog 2 (nat (\<lceil>1 / a\<rceil> - 1))))"

definition round_half_even :: "rat \<Rightarrow> int" where
  "round_half_even q =
     (let f = \<lfloor>q\<rfloor>; d = q - of_int f in
      if d < 1 / 2 then f
      else if 1 / 2 < d then f + 1
      else if even f then f else f + 1)"

definition round_double :: "rat \<Rightarrow> pyfloat" where
  "round_double x =
     (if x = 0 then Finite 0
      else
        let a = \<bar>x\<bar>;
            e = max (floor_log2 a - 52) (- 1074);
            m = round_half_even (a * 2 powi (- e));
            r = of_int m * 2 powi e
        in if 2 ^ 1024 \<le> r then (if 0 < x then PosInf else NegInf)
           else Finite (if 0 < x then r else - r))"

fun float_sub :: "pyfloat \<Rightarrow> pyfloat \<Rightarrow> pyfloat" where
  "float_sub NaN _ = NaN"
| "float_sub _ NaN = NaN"
| "float_sub (Finite a) (Finite b) = round_double (a - b)"
| "float_sub (Finite a) PosInf = NegInf"
| "float_sub (Finite a) NegInf = PosInf"
| "float_sub PosInf PosInf = NaN"
| "float_sub PosInf _ = PosInf"
| "float_sub NegInf NegInf = NaN"
| "float_sub NegInf _ = NegInf"

fun float_abs :: "pyfloat \<Rightarrow> pyfloat" where
  "float_abs (Finite a) = Finite \<bar>a\<bar>"
| "float_abs PosInf = PosInf"
| "float_abs NegInf = PosInf"
| "float_abs NaN = NaN"

fun float_le :: "pyfloat \<Rightarrow> pyfloat \<Rightarrow> bool" where
  "float_le NaN _ = False"
| "float_le _ NaN = False"
| "float_le (Finite a) (Finite b) = (a \<le> b)"
| "float_le NegInf _ = True"
| "float_le _ PosInf = True"
| "float_le _ _ = False"

fun float_gt :: "pyfloat \<Rightarrow> pyfloat \<Rightarrow> bool" where
  "float_gt NaN _ = False"
| "float_gt _ NaN = False"
| "float_gt (Finite a) (Finite b) = (b < a)"
| "float_gt PosInf PosInf = False"
| "float_gt PosInf _ = True"
| "float_gt NegInf _ = False"
| "float_gt _ NegInf = True"
| "float_gt _ _ = False"

definition py_max :: "pyfloat \<Rightarrow> pyfloat \<Rightarrow> pyfloat" where
  \<comment> \<open>\<open>max(a, b)\<close>: the first argument is kept unless the second is greater\<close>
  "py_max a b = (if float_gt b a then b else a)"

fun float_div :: "pyfloat \<Rightarrow> pyfloat \<Rightarrow> py_error + pyfloat" where
  "float_div x (Finite b) =
     (if b = 0 then Inl ZeroDivisionError
      else case x of
        Finite a \<Rightarrow> Inr (round_double (a / b))
      | PosInf \<Rightarrow> Inr (if 0 < b then PosInf else NegInf)
      | NegInf \<Rightarrow> Inr (if 0 < b then NegInf else PosInf)
      | NaN \<Rightarrow> Inr NaN)"
| "float_div x NaN = Inr NaN"
| "float_div (Finite a) _ = Inr (Finite 0)"
| "float_div _ _ = Inr NaN"

subsection \<open>Numeric literals\<close>

definition is_digit :: "char \<Rightarrow> bool" where
  "is_digit c = (48 \<le> (of_char c :: nat) \<and> (of_char c :: nat) \<le> 57)"

definition digit_val :: "char \<Rightarrow> nat" where
  "digit_val c = of_char c - 48"

definition digits_val :: "string \<Rightarrow> nat" where
  "digits_val ds = foldl (\<lambda>n c. 10 * n + digit_val c) 0 ds"

definition decimal_value :: "string \<Rightarrow> rat" where
  \<comment> \<open>the number written by a literal \<open>digits\<close> or \<open>digits.digits\<close>\<close>
  "decimal_value n =
     (let ip = takeWhile is_digit n; fp = drop (Suc (length ip)) n
      in of_nat (digits_val ip) + of_nat (digits_val fp) / 10 ^ length fp)"

definition py_float :: "string \<Rightarrow> pyfloat" where
  \<comment> \<open>\<open>float(n)\<close> on a literal of the pattern: the nearest double, never an exception\<close>
  "py_float n = round_double (decimal_value n)"

function findall_number :: "string \<Rightarrow> string list" where
  "findall_number [] = []"
| "findall_number (c # cs) =
     (if is_digit c then
        (let ip = c # takeWhile is_digit cs; rest = dropWhile is_digit cs in
         case rest of
           d # r \<Rightarrow>
             (case r of
                x # _ \<Rightarrow>
                  if d = CHR ''.'' \<and> is_digit x
                  then (ip @ d # takeWhile is_digit r) # findall_number (dropWhile is_digit r)
                  else ip # findall_number rest
              | [] \<Rightarrow> ip # findall_number rest)
         | [] \<Rightarrow> [ip])
      else findall_number cs)"
  by pat_completeness auto
termination
proof (relation "measure length")
  show "wf (measure length)" by simp
next
  fix c cs x xa d r y ys
  assume *: "xa = dropWhile is_digit cs" "xa = d # r"
  have "length (dropWhile is_digit r) \<le> length r"
    by (rule length_dropWhile_le)
  moreover have "length (d # r) \<le> length cs"
    using * length_dropWhile_le [of is_digit cs] by metis
  ultimately show "(dropWhile is_digit r, c # cs) \<in> measure length"
    by simp
next
  fix c cs x xa d r y ys
  assume "xa = dropWhile is_digit cs"
  then show "(xa, c # cs) \<in> measure length"
    using length_dropWhile_le [of is_digit cs] by simp
next
  fix c cs x xa d r
  assume "xa = dropWhile is_digit cs"
  then show "(xa, c # cs) \<in> measure length"
    using length_dropWhile_le [of is_digit cs] by simp
next
  fix c :: char and cs :: string
  show "(cs, c # cs) \<in> measure length" by simp
qed

definition remove_commas :: "string \<Rightarrow> string" where
  \<comment> \<open>\<open>text.replace(",", "")\<close>\<close>
  "remove_commas text = filter (\<lambda>c. c \<noteq> CHR '','') text"

definition extract_numbers :: "string \<Rightarrow> pyfloat list" where
  "extract_numbers text = map py_float (findall_number (remove_commas text))"


section \<open>Objects\<close>

text \<open>
  The rows of the metadata table and the records returned by retrieval are \<open>dict\<close> objects.
  They live in an object store: a reference is an address, \<open>dict(d)\<close> allocates a new object
  with the items of \<open>d\<close>, and \<open>d[k] = v\<close> updates the object in place. The values kept in
  these dictionaries are the strings written by \<open>save_metadata\<close> and the float score.
\<close>

datatype pyval = PyStr string | PyFloat pyfloat

type_synonym pydict = "string \<rightharpoonup> pyval"

type_synonym ref = nat

record heap =
  objs :: "ref \<Rightarrow> pydict"
  next_ref :: ref

definition new_dict :: "pydict \<Rightarrow> heap \<Rightarrow> ref \<times> heap" where
  "new_dict d h =
     (next_ref h, h\<lparr>objs := (objs h)(next_ref h := d), next_ref := Suc (next_ref h)\<rparr>)"

definition set_item :: "ref \<Rightarrow> string \<Rightarrow> pyval \<Rightarrow> heap \<Rightarrow> heap" where
  "set_item r k v h = h\<lparr>objs := (objs h)(r := (objs h r)(k \<mapsto> v))\<rparr>"

definition get_item :: "heap \<Rightarrow> ref \<Rightarrow> string \<Rightarrow> py_error + pyval" where
  "get_item h r k = (case objs h r k of None \<Rightarrow> Inl KeyError | Some v \<Rightarrow> Inr v)"

definition py_index :: "'a list \<Rightarrow> int \<Rightarrow> py_error + 'a" where
  \<comment> \<open>\<open>xs[i]\<close>: an index below zero counts from the end, one outside the list raises\<close>
  "py_index xs i =
     (if 0 \<le> i \<and> i < int (length xs) then Inr (xs ! nat i)
      else if i < 0 \<and> - int (length xs) \<le> i then Inr (xs ! nat (int (length xs) + i))
      else Inl IndexError)"

section \<open>VectorStore\<close>

text \<open>
  The FAISS index and the sentence embedder are libraries outside the repository. The store
  holds them as functions: \<open>embedder\<close> is \<open>self.embedder.encode([query])\<close>, and
  \<open>index_search q k\<close> is \<open>self.index.search(q, k)\<close>, giving the rows \<open>distances[0]\<close> and
  \<open>indices[0]\<close>. A distance is modelled by the Python float that \<open>float(dist)\<close> makes of it
  (the conversion from 32 bits is exact). \<open>metadata\<close> is the list loaded from
  \<open>facts_metadata.json\<close>, a list of references to row objects. Exceptions raised inside
  the two libraries are not modelled.
\<close>

record 'v vector_store =
  index_search :: "'v \<Rightarrow> int \<Rightarrow> pyfloat list \<times> int list"
  metadata :: "ref list"
  embedder :: "string \<Rightarrow> 'v"

definition TOP_K :: int where
  "TOP_K = 5"

fun retrieve_loop ::
  "ref list \<Rightarrow> (pyfloat \<times> int) list \<Rightarrow> ref list \<Rightarrow> heap \<Rightarrow> py_error + (ref list \<times> heap)" where
  "retrieve_loop md [] results h = Inr (results, h)"
| "retrieve_loop md ((distance, idx) # rest) results h =
     (case py_index md idx of
        Inl e \<Rightarrow> Inl e
      | Inr row \<Rightarrow>
          (case new_dict (objs h row) h of
             (meta, h1) \<Rightarrow>
               retrieve_loop md rest (results @ [meta])
                 (set_item meta ''score'' (PyFloat distance) h1)))"

definition retrieve ::
  "'v vector_store \<Rightarrow> string \<Rightarrow> int \<Rightarrow> heap \<Rightarrow> py_error + (ref list \<times> heap)" where
  "retrieve vs query top_k h =
     (let q_emb = embedder vs query in
      case index_search vs q_emb top_k of
        (distances, indices) \<Rightarrow> retrieve_loop (metadata vs) (zip distances indices) [] h)"

section \<open>ClaimExtractor\<close>

text \<open>
  The spaCy pipeline is outside the repository as well. \<open>nlp\<close> maps a text to what the
  extractor reads of the parsed document: the texts of its sentences, the texts of its entities
  and the part-of-speech tags of its tokens. Exceptions raised inside spaCy are not modelled.
\<close>

record doc =
  sents :: "string list"
  ents :: "string list"
  pos :: "string list"

record claim_extractor =
  nlp :: "string \<Rightarrow> doc"

record claim =
  sentence :: string
  entities :: "string list"

definition py_isspace :: "char \<Rightarrow> bool" where
  "py_isspace c = ((of_char c :: nat) \<in> {9, 10, 11, 12, 13, 28, 29, 30, 31, 32, 133, 160})"

definition strip :: "string \<Rightarrow> string" where
  "strip s = rev (dropWhile py_isspace (rev (dropWhile py_isspace s)))"

fun extract_claims_loop :: "claim_extractor \<Rightarrow> string list \<Rightarrow> claim list \<Rightarrow> claim list" where
  "extract_claims_loop ce [] claims = claims"
| "extract_claims_loop ce (sent # rest) claims =
     (let sent_doc = nlp ce sent;
          es = ents sent_doc;
          has_verb = list_ex (\<lambda>p. p = ''VERB'') (pos sent_doc)
      in if es \<noteq> [] \<and> has_verb
         then extract_claims_loop ce rest (claims @ [\<lparr>sentence = strip sent, entities = es\<rparr>])
         else extract_claims_loop ce rest claims)"

definition extract_claims :: "claim_extractor \<Rightarrow> string \<Rightarrow> claim list" where
  "extract_claims ce text = extract_claims_loop ce (sents (nlp ce text)) []"

section \<open>FactChecker\<close>

record 'v fact_checker =
  vector_store :: "'v vector_store"
  claim_extractor :: claim_extractor

record verdict_record =
  claim :: string
  retrieved_facts :: "ref list"
  verdict :: string
  reasoning :: string
  evidence :: "pyval list"

definition extract_numbers_of :: "pyval \<Rightarrow> py_error + pyfloat list" where
  \<comment> \<open>\<open>extract_numbers(v)\<close>: only a \<open>str\<close> has the method \<open>replace\<close>\<close>
  "extract_numbers_of v =
     (case v of PyStr text \<Rightarrow> Inr (extract_numbers text) | PyFloat _ \<Rightarrow> Inl AttributeError)"

fun statements :: "heap \<Rightarrow> ref list \<Rightarrow> py_error + pyval list" where
  \<comment> \<open>\<open>[fact["statement"] for fact in facts]\<close>\<close>
  "statements h [] = Inr []"
| "statements h (fact_ref # facts) =
     (case get_item h fact_ref ''statement'' of
        Inl e \<Rightarrow> Inl e
      | Inr s \<Rightarrow> (case statements h facts of Inl e \<Rightarrow> Inl e | Inr ss \<Rightarrow> Inr (s # ss)))"

definition eps :: pyfloat where
  \<comment> \<open>the literal \<open>1e-6\<close>\<close>
  "eps = round_double (1 / 1000000)"

definition tolerance :: pyfloat where
  \<comment> \<open>the literal \<open>0.2\<close>\<close>
  "tolerance = round_double (2 / 10)"

text \<open>
  \<open>repr\<close> is the text that an f-string writes for a float; the formatting routine is
  Python's own and is a parameter of the model. The four texts below are the values that
  \<open>classify_claim\<close> gives to \<open>reasoning\<close>.
\<close>

definition reasoning_no_facts :: string where
  "reasoning_no_facts = ''No relevant official facts were retrieved for this claim.''"

definition reasoning_close :: "(pyfloat \<Rightarrow> string) \<Rightarrow> pyfloat \<Rightarrow> pyfloat \<Rightarrow> string" where
  "reasoning_close repr c f =
     ''The claim mentions '' @ repr c @ '', which is close to the official PIB figure ''
       @ repr f @ ''. '' @ ''This matches the retrieved evidence.''"

definition reasoning_different :: "(pyfloat \<Rightarrow> string) \<Rightarrow> pyfloat \<Rightarrow> pyfloat \<Rightarrow> string" where
  "reasoning_different repr c f =
     ''The claim mentions '' @ repr c @ '', but the official PIB figure is '' @ repr f
       @ '', which is significantly different. ''
       @ ''Therefore, the claim is considered False.''"

definition reasoning_not_comparable :: string where
  "reasoning_not_comparable =
     ''The claim does not contain numeric information comparable to official PIB facts, ''
       @ ''or the retrieved fact does not match closely enough to verify.''"

definition classify_claim ::
  "(pyfloat \<Rightarrow> string) \<Rightarrow> 'v vector_store \<Rightarrow> string \<Rightarrow> heap
     \<Rightarrow> py_error + (verdict_record \<times> heap)" where
  "classify_claim repr vs claim_text h =
     (case retrieve vs claim_text TOP_K h of
        Inl e \<Rightarrow> Inl e
      | Inr (retrieved, h') \<Rightarrow>
          (case retrieved of
             [] \<Rightarrow>
               Inr (\<lparr>claim = claim_text, retrieved_facts = [], verdict = ''Unverifiable'',
                      reasoning = reasoning_no_facts, evidence = []\<rparr>, h')
           | top_ref # _ \<Rightarrow>
               (case get_item h' top_ref ''statement'' of
                  Inl e \<Rightarrow> Inl e
                | Inr top_fact \<Rightarrow>
                    (case extract_numbers_of top_fact of
                       Inl e \<Rightarrow> Inl e
                     | Inr fact_nums \<Rightarrow>
                         (case (extract_numbers claim_text, fact_nums) of
                            (c # _, f # _) \<Rightarrow>
                              (case float_div (float_abs (float_sub c f))
                                      (py_max (float_abs f) eps) of
                                 Inl e \<Rightarrow> Inl e
                               | Inr rel_diff \<Rightarrow>
                                   if float_le rel_diff tolerance then
                                     (case statements h' (take 3 retrieved) of
                                        Inl e \<Rightarrow> Inl e
                                      | Inr ev \<Rightarrow>
                                          Inr (\<lparr>claim = claim_text, retrieved_facts = retrieved,
                                                 verdict = ''True'',
                                                 reasoning = reasoning_close repr c f,
                                                 evidence = ev\<rparr>, h'))
                                   else
                                     (case statements h' (take 3 retrieved) of
                                        Inl e \<Rightarrow> Inl e
                                      | Inr ev \<Rightarrow>
                                          Inr (\<lparr>claim = claim_text, retrieved_facts = retrieved,
                                                 verdict = ''False'',
                                                 reasoning = reasoning_different repr c f,
                                                 evidence = ev\<rparr>, h')))
                          | _ \<Rightarrow>
                              Inr (\<lparr>claim = claim_text, retrieved_facts = retrieved,
                                     verdict = ''Unverifiable'',
                                     reasoning = reasoning_not_comparable,
                                     evidence = []\<rparr>, h'))))))"

fun classify_each ::
  "(pyfloat \<Rightarrow> string) \<Rightarrow> 'v vector_store \<Rightarrow> claim list \<Rightarrow> heap
     \<Rightarrow> py_error + (verdict_record list \<times> heap)" where
  \<comment> \<open>\<open>[self.classify_claim(c["sentence"]) for c in claims]\<close>\<close>
  "classify_each repr vs [] h = Inr ([], h)"
| "classify_each repr vs (c # cs) h =
     (case classify_claim repr vs (sentence c) h of
        Inl e \<Rightarrow> Inl e
      | Inr (r, h1) \<Rightarrow>
          (case classify_each repr vs cs h1 of
             Inl e \<Rightarrow> Inl e
           | Inr (rs, h2) \<Rightarrow> Inr (r # rs, h2)))"

definition fact_check_text ::
  "(pyfloat \<Rightarrow> string) \<Rightarrow> 'v fact_checker \<Rightarrow> string \<Rightarrow> heap
     \<Rightarrow> py_error + (verdict_record list \<times> heap)" where
  "fact_check_text repr fc text h =
     (let claims = extract_claims (claim_extractor fc) text in
      if claims = [] then Inr ([], h)
      else classify_each repr (vector_store fc) claims h)"


section \<open>Well-formed stores\<close>

text \<open>
  What the external interfaces promise. A position returned by the index search is usable when
  Python accepts it as an index of the metadata list; the rows of the metadata list are objects
  allocated before the call; each row holds a string under the key \<open>statement\<close>, as
  \<open>save_metadata\<close> writes it.
\<close>

definition valid_index :: "nat \<Rightarrow> int \<Rightarrow> bool" where
  "valid_index n i = (- int n \<le> i \<and> i < int n)"

definition search_ok :: "'v vector_store \<Rightarrow> string \<Rightarrow> int \<Rightarrow> bool" where
  "search_ok vs query top_k =
     list_all (valid_index (length (metadata vs)))
       (snd (index_search vs (embedder vs query) top_k))"

definition refs_ok :: "'v vector_store \<Rightarrow> heap \<Rightarrow> bool" where
  "refs_ok vs h = list_all (\<lambda>r. r < next_ref h) (metadata vs)"

definition has_statement :: "heap \<Rightarrow> ref \<Rightarrow> bool" where
  "has_statement h r = (case objs h r ''statement'' of Some (PyStr s) \<Rightarrow> True | _ \<Rightarrow> False)"

definition rows_ok :: "'v vector_store \<Rightarrow> heap \<Rightarrow> bool" where
  "rows_ok vs h = list_all (has_statement h) (metadata vs)"


definition qualifies :: "claim_extractor \<Rightarrow> string \<Rightarrow> bool" where
  \<comment> \<open>the sentence has at least one recognised entity and at least one verb token\<close>
  "qualifies ce sent = (ents (nlp ce sent) \<noteq> [] \<and> ''VERB'' \<in> set (pos (nlp ce sent)))"

text \<open>
  What a caller can do with the store: call \<open>retrieve\<close>, which hands out references to new
  records, and change any record it was handed in any way.
\<close>

inductive caller_step :: "'v vector_store \<Rightarrow> heap \<times> ref set \<Rightarrow> heap \<times> ref set \<Rightarrow> bool"
  for vs :: "'v vector_store" where
  call: "retrieve vs query top_k h = Inr (rs, h') \<Longrightarrow>
         caller_step vs (h, owned) (h', owned \<union> set rs)"
| mutate: "r \<in> owned \<Longrightarrow>
         caller_step vs (h, owned) (h\<lparr>objs := (objs h)(r := d)\<rparr>, owned)"


section \<open>A sample corpus\<close>

text \<open>
  A corpus of seven official statements with texts that are checked against it, used to run
  the definitions on concrete inputs. The sample embedder is the identity. The sample index
  answers as a flat index of seven vectors does: it ranks all seven positions, returns the
  first \<open>k\<close> of them, and fills up with the position \<open>-1\<close> and the largest 32-bit float when
  \<open>k\<close> exceeds seven. It ranks the statement on districts first for the claim on districts,
  the statement on the deficit first for the claim on the deficit, and the statement on the
  release of funds first for every other text; the second and the third statement of a
  ranking are at the same distance. The sample pipeline knows the sentences below.
\<close>

definition claim_nba :: string where
  "claim_nba = ''NBA released around Rs 39.84 crore to Andhra Pradesh.''"

definition claim_districts :: string where
  "claim_districts = ''The scheme covers 5 districts.''"

definition claim_deficit :: string where
  "claim_deficit = ''The deficit was -40 crore.''"

definition claim_power :: string where
  "claim_power = ''The government announced free electricity to all farmers.''"

definition greeting :: string where
  "greeting = ''Good morning everyone.''"

definition sample_text :: string where
  "sample_text =
     claim_nba @ '' '' @ greeting @ '' '' @ claim_districts @ '' '' @ claim_deficit"

definition statement_nba :: string where
  "statement_nba = ''NBA released Rs 40.0 crore to Andhra Pradesh.''"

definition statement_districts :: string where
  "statement_districts = ''The scheme covers 50 districts of the state.''"

definition statement_deficit :: string where
  "statement_deficit = ''The deficit was 40 crore.''"

definition sample_row :: "string \<Rightarrow> string \<Rightarrow> string \<Rightarrow> pydict" where
  "sample_row i d s =
     [''id'' \<mapsto> PyStr i, ''source'' \<mapsto> PyStr ''PIB'', ''date'' \<mapsto> PyStr d,
      ''statement'' \<mapsto> PyStr s]"

definition sample_heap :: heap where
  "sample_heap =
     \<lparr>objs = (\<lambda>_. Map.empty)
        (0 := sample_row ''1'' ''2025-07-01'' statement_nba,
         1 := sample_row ''2'' ''2025-07-02'' statement_districts,
         2 := sample_row ''3'' ''2025-07-03'' ''India exported 12 lakh tonnes of rice in June.'',
         3 := sample_row ''4'' ''2025-07-04'' ''The Cabinet approved 3 new medical colleges.'',
         4 := sample_row ''5'' ''2025-07-05'' ''Railways will run 20 special trains.'',
         5 := sample_row ''6'' ''2025-07-06'' ''The Ministry launched a portal for farmers.'',
         6 := sample_row ''7'' ''2025-07-07'' statement_deficit),
      next_ref = 7\<rparr>"

definition sample_ranking :: "string \<Rightarrow> int list" where
  "sample_ranking q =
     (if q = claim_districts then [1, 0, 4, 3, 5, 2, 6]
      else if q = claim_deficit then [6, 0, 2, 1, 3, 4, 5]
      else [0, 1, 3, 4, 5, 2, 6])"

definition sample_distances :: "pyfloat list" where
  "sample_distances =
     [Finite (1 / 4), Finite (1 / 2), Finite (1 / 2), Finite 1, Finite (5 / 4), Finite (3 / 2),
      Finite (7 / 4)]"

definition sample_search :: "string \<Rightarrow> int \<Rightarrow> pyfloat list \<times> int list" where
  "sample_search q k =
     (take (nat k)
        (sample_distances
           @ replicate (nat k - 7) (Finite 340282346638528859811704183484516925440)),
      take (nat k) (sample_ranking q @ replicate (nat k - 7) (- 1)))"

definition sample_store :: "string vector_store" where
  "sample_store =
     \<lparr>index_search = sample_search, metadata = [0, 1, 2, 3, 4, 5, 6], embedder = (\<lambda>s. s)\<rparr>"

definition stale_store :: "string vector_store" where
  \<comment> \<open>the same index beside a metadata file that lacks the seventh row\<close>
  "stale_store =
     \<lparr>index_search = sample_search, metadata = [0, 1, 2, 3, 4, 5], embedder = (\<lambda>s. s)\<rparr>"

definition sample_nlp :: "string \<Rightarrow> doc" where
  "sample_nlp t =
     (if t = sample_text
      then \<lparr>sents = [claim_nba @ '' '', greeting @ '' '', claim_districts @ '' '', claim_deficit],
             ents = [''NBA'', ''39.84'', ''Andhra Pradesh'', ''5'', ''40''],
             pos = [''PROPN'', ''VERB'', ''NUM'', ''INTJ'', ''VERB'', ''NUM'', ''AUX'', ''NUM'']\<rparr>
      else if t = claim_nba @ '' ''
      then \<lparr>sents = [t], ents = [''NBA'', ''39.84'', ''Andhra Pradesh''],
             pos = [''PROPN'', ''VERB'', ''ADV'', ''PROPN'', ''NUM'', ''NOUN'', ''ADP'', ''PROPN'']\<rparr>
      else if t = claim_districts @ '' ''
      then \<lparr>sents = [t], ents = [''5''], pos = [''DET'', ''NOUN'', ''VERB'', ''NUM'', ''NOUN'']\<rparr>
      else if t = claim_deficit
      then \<lparr>sents = [t], ents = [''40''], pos = [''DET'', ''NOUN'', ''VERB'', ''NUM'', ''NOUN'']\<rparr>
      else \<lparr>sents = [t], ents = [], pos = [''INTJ'', ''NOUN'', ''PRON'']\<rparr>)"

definition sample_checker :: "string fact_checker" where
  "sample_checker =
     \<lparr>vector_store = sample_store, claim_extractor = \<lparr>nlp = sample_nlp\<rparr>\<rparr>"

definition stale_checker :: "string fact_checker" where
  "stale_checker =
     \<lparr>vector_store = stale_store, claim_extractor = \<lparr>nlp = sample_nlp\<rparr>\<rparr>"

definition sample_repr :: "pyfloat \<Rightarrow> string" where
  \<comment> \<open>the texts Python writes for the floats of the sample\<close>
  "sample_repr x =
     (if x = Finite 40 then ''40.0'' else if x = Finite 5 then ''5.0''
      else if x = Finite 50 then ''50.0'' else ''39.84'')"

text \<open>
  A second corpus, of two statements, for figures at the edge of the tolerance. Its index has
  two vectors, so a search for five neighbours is filled up with the position \<open>-1\<close>.
\<close>

definition claim_rate :: string where
  "claim_rate = ''The repo rate was raised to 3.6 percent.''"

definition statement_rate :: string where
  "statement_rate = ''The repo rate was raised to 3 percent.''"

definition claim_outlay :: string where
  "claim_outlay = ''The outlay is 7200000000000003 rupees.''"

definition statement_outlay :: string where
  "statement_outlay = ''The outlay is 9000000000000004 rupees.''"

definition boundary_heap :: heap where
  "boundary_heap =
     \<lparr>objs = (\<lambda>_. Map.empty)
        (0 := sample_row ''1'' ''2025-08-01'' statement_rate,
         1 := sample_row ''2'' ''2025-08-02'' statement_outlay),
      next_ref = 2\<rparr>"

definition boundary_search :: "string \<Rightarrow> int \<Rightarrow> pyfloat list \<times> int list" where
  "boundary_search q k =
     (take (nat k)
        ([Finite (1 / 4), Finite (1 / 2)]
           @ replicate (nat k - 2) (Finite 340282346638528859811704183484516925440)),
      take (nat k) ((if q = claim_outlay then [1, 0] else [0, 1]) @ replicate (nat k - 2) (- 1)))"

definition boundary_store :: "string vector_store" where
  "boundary_store =
     \<lparr>index_search = boundary_search, metadata = [0, 1], embedder = (\<lambda>s. s)\<rparr>"

section \<open>Properties of the numeric literals\<close>

lemma takeWhile_sep: "\<not> P s \<Longrightarrow> takeWhile P (xs @ s # ys) = takeWhile P xs"
  by (induction xs) auto

lemma dropWhile_sep: "\<not> P s \<Longrightarrow> dropWhile P (xs @ s # ys) = dropWhile P xs @ s # ys"
  by (induction xs) auto

lemma findall_skip: "\<not> is_digit c \<Longrightarrow> findall_number (c # cs) = findall_number cs"
  by simp

lemma findall_last:
  "is_digit c \<Longrightarrow> dropWhile is_digit cs = [] \<Longrightarrow>
   findall_number (c # cs) = [c # takeWhile is_digit cs]"
  by (simp add: Let_def del: dropWhile_eq_Nil_conv)

lemma findall_frac:
  "is_digit c \<Longrightarrow> dropWhile is_digit cs = CHR ''.'' # x # r \<Longrightarrow> is_digit x \<Longrightarrow>
   findall_number (c # cs) =
     (c # takeWhile is_digit cs @ CHR ''.'' # takeWhile is_digit (x # r))
       # findall_number (dropWhile is_digit (x # r))"
  by (simp add: Let_def del: dropWhile_eq_Nil_conv)

lemma findall_int:
  "is_digit c \<Longrightarrow> dropWhile is_digit cs = d # r \<Longrightarrow>
   \<not> (d = CHR ''.'' \<and> r \<noteq> [] \<and> is_digit (hd r)) \<Longrightarrow>
   findall_number (c # cs) = (c # takeWhile is_digit cs) # findall_number (d # r)"
  by (cases r) (simp_all add: Let_def del: dropWhile_eq_Nil_conv)

declare findall_number.simps(2) [simp del]

lemma findall_induct [case_names Nil Skip Last Frac Int]:
  assumes "P []"
    and "\<And>c cs. \<not> is_digit c \<Longrightarrow> P cs \<Longrightarrow> P (c # cs)"
    and "\<And>c cs. is_digit c \<Longrightarrow> dropWhile is_digit cs = [] \<Longrightarrow> P (c # cs)"
    and "\<And>c cs x r. is_digit c \<Longrightarrow> dropWhile is_digit cs = CHR ''.'' # x # r \<Longrightarrow> is_digit x \<Longrightarrow>
           P (dropWhile is_digit (x # r)) \<Longrightarrow> P (c # cs)"
    and "\<And>c cs d r. is_digit c \<Longrightarrow> dropWhile is_digit cs = d # r \<Longrightarrow>
           \<not> (d = CHR ''.'' \<and> r \<noteq> [] \<and> is_digit (hd r)) \<Longrightarrow> P (d # r) \<Longrightarrow> P (c # cs)"
  shows "P t"
proof (induction t rule: length_induct)
  case (1 t)
  show ?case
  proof (cases t)
    case Nil
    then show ?thesis using assms(1) by simp
  next
    case (Cons c cs)
    show ?thesis
    proof (cases "is_digit c")
      case False
      then show ?thesis using assms(2) 1 Cons by simp
    next
      case dig: True
      show ?thesis
      proof (cases "dropWhile is_digit cs")
        case Nil
        then show ?thesis using assms(3) dig Cons by simp
      next
        case dw: (Cons d r)
        have len: "length (d # r) \<le> length cs"
          using length_dropWhile_le [of is_digit cs] dw by simp
        show ?thesis
        proof (cases "d = CHR ''.'' \<and> r \<noteq> [] \<and> is_digit (hd r)")
          case True
          then obtain x r' where r: "r = x # r'" "is_digit x" "d = CHR ''.''"
            by (cases r) auto
          have "length (dropWhile is_digit (x # r')) \<le> length (x # r')"
            by (rule length_dropWhile_le)
          then have "P (dropWhile is_digit (x # r'))"
            using 1 len r Cons by simp
          then show ?thesis
            using assms(4) [of c cs x r'] dig dw r Cons by simp
        next
          case False
          have "P (d # r)" using 1 len Cons by simp
          then show ?thesis
            using assms(5) [of c cs d r] dig dw False Cons by simp
        qed
      qed
    qed
  qed
qed

lemma findall_number_chars:
  "m \<in> set (findall_number t) \<Longrightarrow> c \<in> set m \<Longrightarrow> is_digit c \<or> c = CHR ''.''"
proof (induction t rule: findall_induct)
  case Nil
  then show ?case by simp
next
  case (Skip c cs)
  then show ?case by (simp add: findall_skip)
next
  case (Last c cs)
  then show ?case by (auto simp: findall_last dest: set_takeWhileD)
next
  case (Frac a cs x r)
  then show ?case by (auto simp: findall_frac dest: set_takeWhileD split: if_splits)
next
  case (Int a cs d r)
  then show ?case by (auto simp: findall_int dest: set_takeWhileD simp del: findall_number.simps)
qed


lemma findall_number_sep:
  assumes "\<not> is_digit s" and "s \<noteq> CHR ''.''"
  shows "findall_number (a @ s # b) = findall_number a @ findall_number b"
proof (induction a rule: findall_induct)
  case Nil
  then show ?case using assms by (simp add: findall_skip)
next
  case (Skip c cs)
  then show ?case by (simp add: findall_skip)
next
  case (Last c cs)
  have "dropWhile is_digit (cs @ s # b) = s # b"
    using Last assms by (simp add: dropWhile_sep del: dropWhile_eq_Nil_conv)
  then have "findall_number (c # cs @ s # b) = (c # takeWhile is_digit cs) # findall_number (s # b)"
    using Last assms by (simp add: findall_int takeWhile_sep del: dropWhile_eq_Nil_conv)
  then show ?case
    using Last assms by (simp add: findall_last findall_skip del: dropWhile_eq_Nil_conv)
next
  case (Frac c cs x r)
  have "dropWhile is_digit (cs @ s # b) = CHR ''.'' # x # (r @ s # b)"
    using Frac assms by (simp add: dropWhile_sep)
  then have "findall_number (c # cs @ s # b) =
      (c # takeWhile is_digit cs @ CHR ''.'' # takeWhile is_digit (x # r @ s # b))
        # findall_number (dropWhile is_digit (x # r @ s # b))"
    using Frac assms findall_frac [of c "cs @ s # b" x "r @ s # b"]
    by (simp add: takeWhile_sep)
  moreover have "takeWhile is_digit (x # r @ s # b) = takeWhile is_digit (x # r)"
    using takeWhile_sep [of is_digit s "x # r" b] assms by simp
  moreover have "dropWhile is_digit (x # r @ s # b) = dropWhile is_digit (x # r) @ s # b"
    using dropWhile_sep [of is_digit s "x # r" b] assms by simp
  ultimately show ?case
    using Frac by (simp add: findall_frac)
next
  case (Int c cs d r)
  have dw: "dropWhile is_digit (cs @ s # b) = d # (r @ s # b)"
    using Int assms by (simp add: dropWhile_sep)
  have "\<not> (d = CHR ''.'' \<and> r @ s # b \<noteq> [] \<and> is_digit (hd (r @ s # b)))"
    using Int assms by (cases r) auto
  then have "findall_number (c # cs @ s # b) =
      (c # takeWhile is_digit (cs @ s # b)) # findall_number (d # r @ s # b)"
    using Int dw findall_int [of c "cs @ s # b" d "r @ s # b"] by simp
  then show ?case
    using Int assms by (simp add: findall_int takeWhile_sep)
qed

lemma findall_number_no_dot:
  "m \<in> set (findall_number t) \<Longrightarrow> CHR ''.'' \<notin> set t \<Longrightarrow> c \<in> set m \<Longrightarrow> is_digit c"
proof (induction t rule: findall_induct)
  case Nil
  then show ?case by simp
next
  case (Skip a cs)
  then show ?case by (simp add: findall_skip)
next
  case (Last a cs)
  then show ?case by (auto simp: findall_last dest: set_takeWhileD)
next
  case (Frac a cs x r)
  have "CHR ''.'' \<in> set (dropWhile is_digit cs)" using Frac by simp
  then have "CHR ''.'' \<in> set cs" by (rule set_dropWhileD)
  then show ?case using Frac by simp
next
  case (Int a cs d r)
  have "set (d # r) \<subseteq> set cs"
    using Int(2) set_dropWhileD [of _ is_digit cs] by auto
  then have "CHR ''.'' \<notin> set (d # r)" using Int by auto
  then show ?case
    using Int by (auto simp: findall_int dest: set_takeWhileD)
qed


lemma findall_number_digits:
  assumes "ds \<noteq> []" and "list_all is_digit ds"
  shows "findall_number ds = [ds]"
proof -
  from assms obtain c cs where ds: "ds = c # cs" by (cases ds) auto
  with assms have "is_digit c" "\<forall>x \<in> set cs. is_digit x" by (simp_all add: list_all_iff)
  then have "dropWhile is_digit cs = []" "takeWhile is_digit cs = cs" by simp_all
  with \<open>is_digit c\<close> show ?thesis by (simp add: ds findall_last del: dropWhile_eq_Nil_conv)
qed

section \<open>Properties of the floats\<close>

lemma powi2_unique:
  fixes a :: rat
  assumes "2 powi k \<le> a" "a < 2 powi (k + 1)" "2 powi l \<le> a" "a < 2 powi (l + 1)"
  shows "k = l"
proof -
  have "(2::rat) powi k < 2 powi (l + 1)" using assms by simp
  then have "k < l + 1"
    using power_int_increasing [of "l + 1" k "2::rat"] by (cases "k < l + 1") auto
  moreover have "(2::rat) powi l < 2 powi (k + 1)" using assms by simp
  then have "l < k + 1"
    using power_int_increasing [of "k + 1" l "2::rat"] by (cases "l < k + 1") auto
  ultimately show ?thesis by simp
qed

lemma floor_log2_bounds:
  assumes "0 < a"
  shows "2 powi floor_log2 a \<le> a \<and> a < 2 powi (floor_log2 a + 1)"
proof (cases "1 \<le> a")
  case True
  define n where "n = nat \<lfloor>a\<rfloor>"
  define L where "L = floorlog 2 n"
  have n: "0 < n" "of_nat n \<le> a" "a < of_nat n + 1"
    using True by (auto simp: n_def) linarith+
  from floorlog_bounds [of n 2] n have b: "2 ^ (L - 1) \<le> n" "n < 2 ^ L"
    by (simp_all add: L_def)
  have "L \<noteq> 0" using n by (simp add: L_def floorlog_eq_zero_iff)
  then have L: "0 < L" by simp
  have fl: "floor_log2 a = int (L - 1)"
    using True L by (simp add: floor_log2_def n_def L_def)
  have "(of_nat (2 ^ (L - 1)) :: rat) \<le> of_nat n" using b(1) by (simp only: of_nat_le_iff)
  then have "(2::rat) ^ (L - 1) \<le> of_nat n" by simp
  then have "(2::rat) ^ (L - 1) \<le> a" using n(2) by (rule order_trans)
  then have lo: "2 powi floor_log2 a \<le> a" using fl by simp
  have "n + 1 \<le> 2 ^ L" using b(2) by simp
  then have "(of_nat (n + 1) :: rat) \<le> of_nat (2 ^ L)" by (simp only: of_nat_le_iff)
  then have "of_nat n + 1 \<le> (2::rat) ^ L" by simp
  with n(3) have "a < 2 ^ L" by (rule less_le_trans)
  moreover have "floor_log2 a + 1 = int L" using fl L by simp
  ultimately have "a < 2 powi (floor_log2 a + 1)" by simp
  with lo show ?thesis by simp
next
  case False
  define c where "c = \<lceil>1 / a\<rceil>"
  define n where "n = nat (c - 1)"
  define M where "M = floorlog 2 n"
  have inv: "1 < 1 / a" using False assms by simp
  have c: "1 / a \<le> of_int c" "of_int c - 1 < 1 / a"
    by (simp_all add: c_def) linarith
  have c2: "2 \<le> c" using inv c(1) by (smt (verit) of_int_le_iff of_int_1 of_int_less_iff le_less_trans not_le of_int_numeral)
  have n: "0 < n" "of_nat n = (of_int c - 1 :: rat)" using c2 by (simp_all add: n_def)
  from floorlog_bounds [of n 2] n have b: "2 ^ (M - 1) \<le> n" "n < 2 ^ M"
    by (simp_all add: M_def)
  have "M \<noteq> 0" using n by (simp add: M_def floorlog_eq_zero_iff)
  then have M: "0 < M" by simp
  have fl: "floor_log2 a = - int M"
    using False by (simp add: floor_log2_def n_def M_def c_def)
  have "n + 1 \<le> 2 ^ M" using b(2) by simp
  then have "(of_nat (n + 1) :: rat) \<le> of_nat (2 ^ M)" by (simp only: of_nat_le_iff)
  then have "of_int c \<le> (2::rat) ^ M" using n(2) by simp
  with c(1) have "1 / a \<le> 2 ^ M" by (rule order_trans)
  then have "1 \<le> 2 ^ M * a" using assms by (simp add: field_simps)
  then have lo: "2 powi (- int M) \<le> a"
    by (simp add: power_int_minus field_simps)
  have "(of_nat (2 ^ (M - 1)) :: rat) \<le> of_nat n" using b(1) by (simp only: of_nat_le_iff)
  then have "(2::rat) ^ (M - 1) \<le> of_int c - 1" using n(2) by simp
  then have "2 ^ (M - 1) < 1 / a" using c(2) by (rule le_less_trans)
  then have "a < 1 / 2 ^ (M - 1)" using assms by (simp add: field_simps)
  moreover have "(2::rat) powi (- int M + 1) = 1 / 2 ^ (M - 1)"
  proof -
    have "- int M + 1 = - int (M - 1)" using M by simp
    then show ?thesis
      by (simp only: power_int_minus power_int_of_nat inverse_eq_divide)
  qed
  ultimately have "a < 2 powi (- int M + 1)" by simp
  with lo fl show ?thesis by simp
qed

lemma floor_log2_eq:
  "2 powi k \<le> a \<Longrightarrow> a < 2 powi (k + 1) \<Longrightarrow> floor_log2 a = k"
proof -
  assume k: "2 powi k \<le> a" "a < 2 powi (k + 1)"
  have "(0::rat) < 2 powi k" by simp
  then have "0 < a" using k(1) by (rule less_le_trans)
  from floor_log2_bounds [OF this] k show ?thesis
    using powi2_unique by blast
qed


lemma round_double_pos:
  assumes "2 powi k \<le> x" and "x < 2 powi (k + 1)"
    and "round_half_even (x * 2 powi (- max (k - 52) (- 1074))) = m"
    and "of_int m * 2 powi max (k - 52) (- 1074) = r" and "r < 2 ^ 1024"
  shows "round_double x = Finite r"
proof -
  have "(0::rat) < 2 powi k" by simp
  then have x: "0 < x" using assms(1) by (rule less_le_trans)
  have "floor_log2 \<bar>x\<bar> = k" using assms(1,2) x by (simp add: floor_log2_eq)
  then show ?thesis
    using x assms(3,4,5) by (simp add: round_double_def Let_def)
qed

lemma round_double_neg:
  assumes "2 powi k \<le> - x" and "- x < 2 powi (k + 1)"
    and "round_half_even (- x * 2 powi (- max (k - 52) (- 1074))) = m"
    and "of_int m * 2 powi max (k - 52) (- 1074) = r" and "r < 2 ^ 1024"
  shows "round_double x = Finite (- r)"
proof -
  have "(0::rat) < 2 powi k" by simp
  then have x: "0 < - x" using assms(1) by (rule less_le_trans)
  have "floor_log2 \<bar>x\<bar> = k" using assms(1,2) x by (simp add: floor_log2_eq)
  then show ?thesis
    using x assms(3,4,5) by (simp add: round_double_def Let_def)
qed

lemma round_half_even_int: "round_half_even (of_int z) = z"
  by (simp add: round_half_even_def)

lemma floor_numeral_div: "\<lfloor>numeral a / numeral b :: rat\<rfloor> = numeral a div numeral b"
  using floor_divide_of_int_eq [of "numeral a" "numeral b", where ?'a = rat] by simp

lemmas float_eval = round_half_even_def Let_def floor_numeral_div

lemma eps_value: "eps = Finite (4722366482869645 / 4722366482869645213696)"
  unfolding eps_def
  by (rule round_double_pos [where k = "- 20"]) (simp_all add: float_eval)

lemma tolerance_value: "tolerance = Finite (3602879701896397 / 18014398509481984)"
  unfolding tolerance_def
  by (rule round_double_pos [where k = "- 3"]) (simp_all add: float_eval)


lemma round_double_of_nat:
  assumes "n < 2 ^ 53"
  shows "round_double (of_nat n) = Finite (of_nat n)"
proof (cases "n = 0")
  case True
  then show ?thesis by (simp add: round_double_def)
next
  case False
  define x :: rat where "x = of_nat n"
  define k where "k = floor_log2 x"
  have "(of_nat n :: rat) < of_nat (2 ^ 53)" using assms by (simp only: of_nat_less_iff)
  moreover have "(of_nat 1 :: rat) \<le> of_nat n" using False by simp
  ultimately have x: "1 \<le> x" "x < 2 ^ 53"
    by (simp_all add: x_def)
  then have "0 < x" by simp
  from floor_log2_bounds [OF this] have b: "2 powi k \<le> x" "x < 2 powi (k + 1)"
    by (simp_all add: k_def)
  have k0: "0 \<le> k"
  proof (rule ccontr)
    assume "\<not> 0 \<le> k"
    then have "(2::rat) powi (k + 1) \<le> 2 powi 0"
      by (intro power_int_increasing) simp_all
    with b(2) x(1) show False by simp
  qed
  have k52: "k \<le> 52"
  proof (rule ccontr)
    assume "\<not> k \<le> 52"
    then have "(2::rat) powi 53 \<le> 2 powi k"
      by (intro power_int_increasing) simp_all
    with b(1) x(2) show False by simp
  qed
  have e: "max (k - 52) (- 1074) = k - 52" using k0 by simp
  have p: "(2::rat) powi (52 - k) = of_int (2 ^ nat (52 - k))"
    using k52 by (simp add: power_int_nonneg_exp)
  have m: "round_half_even (x * 2 powi (- max (k - 52) (- 1074))) = int n * 2 ^ nat (52 - k)"
  proof -
    have "x * 2 powi (- max (k - 52) (- 1074)) = of_int (int n * 2 ^ nat (52 - k))"
      by (simp add: e p x_def)
    then show ?thesis by (simp only: round_half_even_int)
  qed
  have "(2::rat) powi (52 - k) * 2 powi (k - 52) = 2 powi ((52 - k) + (k - 52))"
    by (rule power_int_add [symmetric]) simp
  then have c: "(2::rat) powi (52 - k) * 2 powi (k - 52) = 1" by simp
  have "of_int (int n * 2 ^ nat (52 - k)) * 2 powi (k - 52) = x * (2 powi (52 - k) * 2 powi (k - 52))"
    by (simp add: p x_def)
  then have r: "of_int (int n * 2 ^ nat (52 - k)) * 2 powi max (k - 52) (- 1074) = x"
    by (simp add: e c)
  have "x < 2 ^ 1024" using x(2) by simp
  from round_double_pos [OF b m r this] show ?thesis by (simp add: x_def)
qed

lemma float_div_eps: "\<exists>r. float_div x (py_max (float_abs f) eps) = Inr r"
  by (cases f; cases x) (auto simp: py_max_def eps_value)

lemma float_gt_not_le: "float_gt x y \<Longrightarrow> \<not> float_le x y"
  by (cases x; cases y) auto

lemma round_half_even_nonneg: "0 \<le> q \<Longrightarrow> 0 \<le> round_half_even q"
  by (auto simp: round_half_even_def Let_def)

lemma round_double_nonneg: "0 \<le> x \<Longrightarrow> float_le (Finite 0) (round_double x)"
  by (auto simp: round_double_def Let_def round_half_even_nonneg)

lemma decimal_value_nonneg: "0 \<le> decimal_value n"
  by (simp add: decimal_value_def Let_def)


lemma extract_numbers_nonneg: "x \<in> set (extract_numbers text) \<Longrightarrow> float_le (Finite 0) x"
  by (auto simp: extract_numbers_def py_float_def round_double_nonneg decimal_value_nonneg)

lemma extract_numbers_sep:
  "\<not> is_digit s \<Longrightarrow> s \<noteq> CHR ''.'' \<Longrightarrow> s \<noteq> CHR '','' \<Longrightarrow>
   extract_numbers (a @ s # b) = extract_numbers a @ extract_numbers b"
  by (simp add: extract_numbers_def remove_commas_def findall_number_sep)

lemmas literal_eval =
  extract_numbers_def remove_commas_def py_float_def decimal_value_def digits_val_def
  digit_val_def is_digit_def findall_number.simps(2) Let_def

text \<open>
  The floats are not the rationals. For the literal \<open>3.6\<close> against \<open>3\<close> the exact relative
  difference is \<open>0.2\<close>, while the computed one is the double next above the double of
  \<open>0.2\<close>, so the comparison with the tolerance fails.
\<close>

lemma rel_diff_rounding:
  "float_div (float_abs (float_sub (py_float ''3.6'') (py_float ''3'')))
     (py_max (float_abs (py_float ''3'')) eps)
     = Inr (Finite (7205759403792795 / 36028797018963968))"
  "\<not> float_le (Finite (7205759403792795 / 36028797018963968)) tolerance"
  "\<bar>36 / 10 - 3\<bar> / 3 \<le> (2 / 10 :: rat)"
proof -
  have a: "py_float ''3.6'' = Finite (8106479329266893 / 2251799813685248)"
  proof -
    have "round_double (18 / 5) = Finite (8106479329266893 / 2251799813685248)"
      by (rule round_double_pos [where k = 1]) (simp_all add: float_eval)
    then show ?thesis by (simp add: literal_eval)
  qed
  have b: "py_float ''3'' = Finite 3"
    using round_double_of_nat [of 3] by (simp add: literal_eval)
  have c: "round_double (8106479329266893 / 2251799813685248 - 3)
      = Finite (1351079888211149 / 2251799813685248)"
    by (rule round_double_pos [where k = "- 1"]) (simp_all add: float_eval)
  have d: "round_double (1351079888211149 / 2251799813685248 / 3)
      = Finite (7205759403792795 / 36028797018963968)"
    by (rule round_double_pos [where k = "- 3"]) (simp_all add: float_eval)
  have e: "py_max (Finite 3) eps = Finite 3" by (simp add: py_max_def eps_value)
  show "float_div (float_abs (float_sub (py_float ''3.6'') (py_float ''3'')))
     (py_max (float_abs (py_float ''3'')) eps)
     = Inr (Finite (7205759403792795 / 36028797018963968))"
    using c d by (simp add: a b e)
  show "\<not> float_le (Finite (7205759403792795 / 36028797018963968)) tolerance"
    by (simp add: tolerance_value)
  show "\<bar>36 / 10 - 3\<bar> / 3 \<le> (2 / 10 :: rat)" by simp
qed

subsection \<open>Rounding errors\<close>

text \<open>
  Rounding to a double moves a positive rational by at most the fraction \<open>2 ^ - 53\<close> of
  itself, or by \<open>2 ^ - 1075\<close> among the subnormal numbers, and it never crosses a double. This
  bounds how far the computed relative difference is from the exact one.
\<close>

lemma round_half_even_error: "\<bar>of_int (round_half_even q) - q\<bar> \<le> 1 / 2"
proof -
  have "of_int \<lfloor>q\<rfloor> \<le> q" "q < of_int \<lfloor>q\<rfloor> + 1" by linarith+
  then show ?thesis by (auto simp: round_half_even_def Let_def)
qed

lemma round_half_even_le: "q \<le> of_int n \<Longrightarrow> round_half_even q \<le> n"
proof -
  assume a: "q \<le> of_int n"
  then have f: "\<lfloor>q\<rfloor> \<le> n" by (simp add: floor_le_iff)
  have "\<lfloor>q\<rfloor> + 1 \<le> n" if "of_int \<lfloor>q\<rfloor> < q"
  proof -
    from that a have "(of_int \<lfloor>q\<rfloor> :: rat) < of_int n" by simp
    then show ?thesis by simp
  qed
  with f show ?thesis by (auto simp: round_half_even_def Let_def)
qed

lemma round_half_even_ge: "of_int n \<le> q \<Longrightarrow> n \<le> round_half_even q"
proof -
  assume "of_int n \<le> q"
  then have "n \<le> \<lfloor>q\<rfloor>" by (simp add: le_floor_iff)
  then show ?thesis by (auto simp: round_half_even_def Let_def)
qed

lemma powi2_cancel: "(2::rat) powi (- e) * 2 powi e = 1"
proof -
  have "(2::rat) powi (- e) * 2 powi e = 2 powi (- e + e)"
    by (rule power_int_add [symmetric]) simp
  then show ?thesis by simp
qed

lemma round_double_near:
  assumes "0 < x"
  shows "\<exists>r::rat. 0 \<le> r \<and> \<bar>r - x\<bar> \<le> max (x / 2 ^ 53) (1 / 2 ^ 1075) \<and>
           round_double x = (if 2 ^ 1024 \<le> r then PosInf else Finite r)"
proof -
  define k where "k = floor_log2 x"
  define e where "e = max (k - 52) (- 1074)"
  define q where "q = x * 2 powi (- e)"
  define r :: rat where "r = of_int (round_half_even q) * 2 powi e"
  have rd: "round_double x = (if 2 ^ 1024 \<le> r then PosInf else Finite r)"
    using assms by (simp add: round_double_def Let_def r_def q_def e_def k_def)
  have "0 \<le> q" using assms by (simp add: q_def)
  then have r0: "0 \<le> r" by (simp add: r_def round_half_even_nonneg)
  have x: "x = q * 2 powi e"
    using powi2_cancel [of e] by (simp add: q_def mult.assoc)
  have "r - x = (of_int (round_half_even q) - q) * 2 powi e"
    by (simp add: r_def x algebra_simps)
  then have "\<bar>r - x\<bar> = \<bar>of_int (round_half_even q) - q\<bar> * 2 powi e"
    by (simp add: abs_mult)
  also have "\<dots> \<le> (1 / 2) * 2 powi e"
    by (intro mult_right_mono round_half_even_error) simp
  finally have err: "\<bar>r - x\<bar> \<le> 2 powi e / 2" by simp
  have "2 powi e / 2 \<le> max (x / 2 ^ 53) (1 / 2 ^ 1075)"
  proof (cases "- 1074 \<le> k - 52")
    case True
    then have "e = k - 52" by (simp add: e_def)
    then have "e = k + (- 52)" by simp
    moreover have "(2::rat) powi (k + (- 52)) = 2 powi k * 2 powi (- 52)"
      by (rule power_int_add) simp
    ultimately have "(2::rat) powi e = 2 powi k * 2 powi (- 52)" by simp
    moreover have "2 powi k \<le> x" using floor_log2_bounds [OF assms] by (simp add: k_def)
    ultimately have "2 powi e / 2 \<le> x / 2 ^ 53" by (simp add: power_int_minus field_simps)
    then show ?thesis by simp
  next
    case False
    then have "e = - 1074" by (simp add: e_def)
    then have "(2::rat) powi e / 2 = 1 / 2 ^ 1075" by (simp add: power_int_minus field_simps)
    then show ?thesis by simp
  qed
  with err have "\<bar>r - x\<bar> \<le> max (x / 2 ^ 53) (1 / 2 ^ 1075)" by (rule order_trans)
  with r0 rd show ?thesis by blast
qed

lemma round_double_neg_form:
  assumes "x < 0"
  shows "round_double x =
     (case round_double (- x) of Finite r \<Rightarrow> Finite (- r) | PosInf \<Rightarrow> NegInf | y \<Rightarrow> y)"
  using assms by (simp add: round_double_def Let_def)

lemma round_double_cases:
  obtains (zero) "x = 0" "round_double x = Finite 0"
  | (pos_inf) "0 < x" "round_double x = PosInf"
  | (pos) r where "0 < x" "0 \<le> r" "r < 2 ^ 1024" "round_double x = Finite r"
  | (neg_inf) "x < 0" "round_double x = NegInf" "round_double (- x) = PosInf"
  | (neg) r where "x < 0" "0 \<le> r" "r < 2 ^ 1024" "round_double x = Finite (- r)"
      "round_double (- x) = Finite r"
proof (cases "x = 0")
  case True
  then show ?thesis using zero by (simp add: round_double_def)
next
  case False
  show ?thesis
  proof (cases "0 < x")
    case True
    from round_double_near [OF True] obtain r :: rat where
      "0 \<le> r" "round_double x = (if 2 ^ 1024 \<le> r then PosInf else Finite r)" by blast
    then show ?thesis using True pos_inf pos by (cases "(2::rat) ^ 1024 \<le> r") auto
  next
    case nonpos: False
    with False have x: "x < 0" "0 < - x" by simp_all
    from round_double_near [OF x(2)] obtain r :: rat where
      r: "0 \<le> r" "round_double (- x) = (if 2 ^ 1024 \<le> r then PosInf else Finite r)" by blast
    show ?thesis
    proof (cases "(2::rat) ^ 1024 \<le> r")
      case True
      with r round_double_neg_form [OF x(1)] show ?thesis using neg_inf x(1) by simp
    next
      case False
      with r round_double_neg_form [OF x(1)] show ?thesis using neg [of r] x(1) by simp
    qed
  qed
qed

lemma round_double_finite_range: "round_double x = Finite r \<Longrightarrow> \<bar>r\<bar> < 2 ^ 1024"
  by (cases x rule: round_double_cases) auto

lemma float_abs_round_double: "float_abs (round_double x) = round_double \<bar>x\<bar>"
  by (cases x rule: round_double_cases) (auto simp: round_double_def)

lemma round_double_binade:
  assumes "2 powi k \<le> x" and "x < 2 powi (k + 1)"
  shows "\<exists>r::rat. r = of_int (round_half_even (x * 2 powi (- max (k - 52) (- 1074))))
                    * 2 powi max (k - 52) (- 1074) \<and>
           round_double x = (if 2 ^ 1024 \<le> r then PosInf else Finite r)"
proof -
  have "(0::rat) < 2 powi k" by simp
  then have x: "0 < x" using assms(1) by (rule less_le_trans)
  have "floor_log2 \<bar>x\<bar> = k" using assms x by (simp add: floor_log2_eq)
  then show ?thesis using x by (simp add: round_double_def Let_def)
qed

lemma round_double_le_tolerance:
  assumes "0 \<le> x" and "x \<le> 1 / 5"
  shows "float_le (round_double x) tolerance"
proof (cases "1 / 8 \<le> x")
  case True
  have "2 powi (- 3) \<le> x" "x < 2 powi (- 3 + 1)" using True assms(2) by simp_all
  from round_double_binade [OF this] obtain r :: rat where
    r: "r = of_int (round_half_even (x * 2 ^ 55)) / 2 ^ 55"
      "round_double x = (if 2 ^ 1024 \<le> r then PosInf else Finite r)"
    by (auto simp: power_int_minus field_simps)
  have "x * 2 ^ 55 \<le> of_int 7205759403792794" using assms(2) by simp
  then have "round_half_even (x * 2 ^ 55) \<le> 7205759403792794" by (rule round_half_even_le)
  then have "(of_int (round_half_even (x * 2 ^ 55)) :: rat) \<le> of_int 7205759403792794"
    by (simp only: of_int_le_iff)
  then have "r \<le> 3602879701896397 / 18014398509481984" by (simp add: r(1) field_simps)
  then show ?thesis using r(2) by (simp add: tolerance_value)
next
  case False
  show ?thesis
  proof (cases "x = 0")
    case True
    then show ?thesis by (simp add: round_double_def tolerance_value)
  next
    case nz: False
    with assms have "0 < x" by simp
    from round_double_near [OF this] obtain r :: rat where
      r: "\<bar>r - x\<bar> \<le> max (x / 2 ^ 53) (1 / 2 ^ 1075)"
        "round_double x = (if 2 ^ 1024 \<le> r then PosInf else Finite r)" by blast
    have "max (x / 2 ^ 53) (1 / 2 ^ 1075) \<le> 1 / 2 ^ 56" using False by simp
    with r(1) have "\<bar>r - x\<bar> \<le> 1 / 2 ^ 56" by (rule order_trans)
    then have "r \<le> x + 1 / 2 ^ 56" by linarith
    moreover have "x < 1 / 8" using False by simp
    ultimately have "r \<le> 3602879701896397 / 18014398509481984" by simp
    then show ?thesis using r(2) by (simp add: tolerance_value)
  qed
qed

lemma round_double_gt_tolerance:
  assumes "3602879701896398 / 18014398509481984 \<le> x"
  shows "\<not> float_le (round_double x) tolerance"
proof (cases "x < 1 / 4")
  case True
  have "2 powi (- 3) \<le> x" "x < 2 powi (- 3 + 1)" using True assms by simp_all
  from round_double_binade [OF this] obtain r :: rat where
    r: "r = of_int (round_half_even (x * 2 ^ 55)) / 2 ^ 55"
      "round_double x = (if 2 ^ 1024 \<le> r then PosInf else Finite r)"
    by (auto simp: power_int_minus field_simps)
  have "of_int 7205759403792796 \<le> x * 2 ^ 55" using assms by simp
  then have "7205759403792796 \<le> round_half_even (x * 2 ^ 55)" by (rule round_half_even_ge)
  then have "(of_int 7205759403792796 :: rat) \<le> of_int (round_half_even (x * 2 ^ 55))"
    by (simp only: of_int_le_iff)
  then have "3602879701896398 / 18014398509481984 \<le> r" by (simp add: r(1) field_simps)
  then show ?thesis using r(2) by (simp add: tolerance_value)
next
  case False
  then have "0 < x" by simp
  from round_double_near [OF this] obtain r :: rat where
    r: "\<bar>r - x\<bar> \<le> max (x / 2 ^ 53) (1 / 2 ^ 1075)"
      "round_double x = (if 2 ^ 1024 \<le> r then PosInf else Finite r)" by blast
  have "max (x / 2 ^ 53) (1 / 2 ^ 1075) = x / 2 ^ 53" using False by simp
  with r(1) have "\<bar>r - x\<bar> \<le> x / 2 ^ 53" by simp
  then have "x - x / 2 ^ 53 \<le> r" by linarith
  moreover have "1 / 4 \<le> x" using False by simp
  ultimately have "3602879701896398 / 18014398509481984 \<le> r" by simp
  then show ?thesis using r(2) by (simp add: tolerance_value)
qed

lemma py_max_eps:
  "py_max (Finite \<bar>b\<bar>) eps
     = Finite (max \<bar>b\<bar> (4722366482869645 / 4722366482869645213696))"
  by (simp add: py_max_def eps_value max_def)

lemma rel_diff_within:
  assumes "\<bar>b\<bar> < 2 ^ 1024"
    and "\<bar>a - b\<bar> \<le> 1 / 5 * (1 - 1 / 2 ^ 50) * max \<bar>b\<bar> (1 / 1000000)"
  shows "\<exists>rel. float_div (float_abs (float_sub (Finite a) (Finite b)))
                  (py_max (float_abs (Finite b)) eps) = Inr rel \<and>
               float_le rel tolerance"
proof -
  define y where "y = \<bar>a - b\<bar>"
  define m where "m = max \<bar>b\<bar> (4722366482869645 / 4722366482869645213696)"
  have m: "0 < m" "m < 2 ^ 1024" "4722366482869645 / 4722366482869645213696 \<le> m"
    using assms(1) by (simp_all add: m_def)
  have "max \<bar>b\<bar> (1 / 1000000) \<le> m * (1 + 1 / 2 ^ 53)"
    by (simp add: m_def max_def)
  with assms(2) have y: "y \<le> 1 / 5 * (1 - 1 / 2 ^ 50) * (m * (1 + 1 / 2 ^ 53))"
    by (simp add: y_def)
  have lhs: "float_abs (round_double (a - b)) = round_double y"
    by (simp add: float_abs_round_double y_def)
  have "\<exists>r. round_double y = Finite r \<and> 0 \<le> r \<and> r \<le> m / 5"
  proof (cases "y = 0")
    case True
    then show ?thesis using m(1) by (simp add: round_double_def)
  next
    case False
    then have "0 < y" by (simp add: y_def)
    from round_double_near [OF this] obtain r :: rat where
      r: "0 \<le> r" "\<bar>r - y\<bar> \<le> max (y / 2 ^ 53) (1 / 2 ^ 1075)"
        "round_double y = (if 2 ^ 1024 \<le> r then PosInf else Finite r)" by blast
    have "r \<le> m / 5"
    proof (cases "1 / 2 ^ 1075 \<le> y / 2 ^ 53")
      case True
      with r(2) have "\<bar>r - y\<bar> \<le> y / 2 ^ 53" by simp
      then have "r \<le> y + y / 2 ^ 53" by linarith
      with y m(1) show ?thesis by simp
    next
      case False
      with r(2) have "\<bar>r - y\<bar> \<le> 1 / 2 ^ 1075" by simp
      then have "r \<le> y + 1 / 2 ^ 1075" by linarith
      moreover have "y < 1 / 2 ^ 1022" using False by simp
      ultimately show ?thesis using m(3) by simp
    qed
    moreover from this have "r < 2 ^ 1024" using m(2) by simp
    ultimately show ?thesis using r(1,3) by simp
  qed
  then obtain r where r: "round_double y = Finite r" "0 \<le> r" "r \<le> m / 5" by blast
  have "0 \<le> r / m" "r / m \<le> 1 / 5" using r(2,3) m(1) by (simp_all add: field_simps)
  then have "float_le (round_double (r / m)) tolerance" by (rule round_double_le_tolerance)
  then show ?thesis using m(1) r(1) by (simp add: lhs py_max_eps m_def [symmetric])
qed

lemma rel_diff_beyond:
  assumes "1 / 5 * (1 + 1 / 2 ^ 50) * max \<bar>b\<bar> (1 / 1000000) \<le> \<bar>a - b\<bar>"
  shows "\<exists>rel. float_div (float_abs (float_sub (Finite a) (Finite b)))
                  (py_max (float_abs (Finite b)) eps) = Inr rel \<and>
               \<not> float_le rel tolerance"
proof -
  define y where "y = \<bar>a - b\<bar>"
  define m where "m = max \<bar>b\<bar> (4722366482869645 / 4722366482869645213696)"
  have m: "0 < m" "4722366482869645 / 4722366482869645213696 \<le> m"
    by (simp_all add: m_def)
  have "m \<le> max \<bar>b\<bar> (1 / 1000000)" by (simp add: m_def max_def)
  then have "1 / 5 * (1 + 1 / 2 ^ 50) * m \<le> 1 / 5 * (1 + 1 / 2 ^ 50) * max \<bar>b\<bar> (1 / 1000000)"
    by (intro mult_left_mono) simp_all
  with assms have y: "1 / 5 * (1 + 1 / 2 ^ 50) * m \<le> y" by (simp add: y_def)
  have lhs: "float_abs (round_double (a - b)) = round_double y"
    by (simp add: float_abs_round_double y_def)
  have y0: "1 / 2 ^ 1022 \<le> y" using y m(2) by simp
  then have "0 < y" by simp
  from round_double_near [OF this] obtain r :: rat where
    r: "\<bar>r - y\<bar> \<le> max (y / 2 ^ 53) (1 / 2 ^ 1075)"
      "round_double y = (if 2 ^ 1024 \<le> r then PosInf else Finite r)" by blast
  have "max (y / 2 ^ 53) (1 / 2 ^ 1075) = y / 2 ^ 53" using y0 by simp
  with r(1) have "\<bar>r - y\<bar> \<le> y / 2 ^ 53" by simp
  then have "y - y / 2 ^ 53 \<le> r" by linarith
  with y m(1) have rm: "3602879701896398 / 18014398509481984 * m \<le> r" by simp
  show ?thesis
  proof (cases "(2::rat) ^ 1024 \<le> r")
    case True
    then show ?thesis using r(2) m(1)
      by (simp add: lhs py_max_eps m_def [symmetric] tolerance_value)
  next
    case False
    have "3602879701896398 / 18014398509481984 \<le> r / m"
      using rm m(1) by (simp add: field_simps)
    then have "\<not> float_le (round_double (r / m)) tolerance"
      by (rule round_double_gt_tolerance)
    then show ?thesis using False r(2) m(1)
      by (simp add: lhs py_max_eps m_def [symmetric])
  qed
qed

lemma rel_diff_infinite:
  assumes "c = PosInf \<or> f = PosInf"
  shows "\<exists>rel. float_div (float_abs (float_sub c f)) (py_max (float_abs f) eps) = Inr rel \<and>
               \<not> float_le rel tolerance"
  using assms by (cases c; cases f) (auto simp: py_max_def eps_value tolerance_value)

lemma extract_numbers_range:
  assumes "Finite b \<in> set (extract_numbers s)"
  shows "\<bar>b\<bar> < 2 ^ 1024"
proof -
  from assms obtain n where "Finite b = py_float n" by (auto simp: extract_numbers_def)
  then have "round_double (decimal_value n) = Finite b" by (simp add: py_float_def)
  then show ?thesis by (rule round_double_finite_range)
qed

lemma remove_commas_digits: "list_all is_digit ds \<Longrightarrow> remove_commas ds = ds"
proof -
  assume "list_all is_digit ds"
  moreover have "\<not> is_digit CHR '',''" by (simp add: is_digit_def)
  ultimately have "\<forall>c \<in> set ds. c \<noteq> CHR '',''" by (auto simp: list_all_iff)
  then show ?thesis by (simp add: remove_commas_def filter_id_conv)
qed

section \<open>Claims about the numeric extraction\<close>

text \<open>
  C10. \<open>extract_numbers\<close> deletes every comma of its input before it matches: a comma
  anywhere leaves the same numbers as the text without it, two digit groups joined by a comma
  are read as the one literal made of both (the text \<open>1,5\<close> gives the single value
  \<open>15.0\<close>), and in a text without a decimal point every matched literal consists of
  digits only, so that no other character separates a fractional part.
\<close>

theorem extract_numbers_deletes_commas:
  "extract_numbers (a @ CHR '','' # b) = extract_numbers (a @ b) \<and>
   (d1 \<noteq> [] \<and> list_all is_digit d1 \<and> list_all is_digit d2 \<longrightarrow>
      extract_numbers (d1 @ CHR '','' # d2) = [py_float (d1 @ d2)]) \<and>
   extract_numbers ''1,5'' = [Finite 15] \<and>
   (CHR ''.'' \<notin> set t \<longrightarrow>
      (\<forall>m \<in> set (findall_number (remove_commas t)). list_all is_digit m))"
proof (intro conjI impI ballI)
  show "extract_numbers (a @ CHR '','' # b) = extract_numbers (a @ b)"
    by (simp add: extract_numbers_def remove_commas_def)
next
  assume d: "d1 \<noteq> [] \<and> list_all is_digit d1 \<and> list_all is_digit d2"
  then have "remove_commas (d1 @ CHR '','' # d2) = remove_commas d1 @ remove_commas d2"
    by (simp add: remove_commas_def)
  with d have "remove_commas (d1 @ CHR '','' # d2) = d1 @ d2"
    by (simp add: remove_commas_digits)
  moreover have "findall_number (d1 @ d2) = [d1 @ d2]"
    using d by (intro findall_number_digits) simp_all
  ultimately show "extract_numbers (d1 @ CHR '','' # d2) = [py_float (d1 @ d2)]"
    by (simp add: extract_numbers_def)
next
  show "extract_numbers ''1,5'' = [Finite 15]"
    using round_double_of_nat [of 15] by (simp add: literal_eval)
next
  fix m
  assume "CHR ''.'' \<notin> set t" and m: "m \<in> set (findall_number (remove_commas t))"
  then have "CHR ''.'' \<notin> set (remove_commas t)" by (simp add: remove_commas_def)
  with m show "list_all is_digit m"
    by (auto simp: list_all_iff intro: findall_number_no_dot)
qed

theorem extract_numbers_deletes_commas_witness:
  "extract_numbers (''1'' @ CHR '','' # ''5'') = [py_float (''1'' @ ''5'')] \<and>
   ''1'' \<noteq> [] \<and> list_all is_digit ''1'' \<and> list_all is_digit ''5'' \<and>
   CHR ''.'' \<notin> set ''1;5'' \<and>
   findall_number (remove_commas ''1;5'') = [''1'', ''5'']"
  using extract_numbers_deletes_commas
    [where a = "''1''" and b = "''5''" and ?d1.0 = "''1''" and ?d2.0 = "''5''" and t = "''1;5''"]
  by (auto simp: is_digit_def remove_commas_def findall_number.simps(2))



section \<open>Claims about retrieval\<close>

lemma py_index_Inr: "py_index xs i = Inr x \<Longrightarrow> x \<in> set xs"
  by (auto simp: py_index_def split: if_splits)

lemma py_index_valid: "valid_index (length xs) i \<Longrightarrow> \<exists>x. py_index xs i = Inr x"
  by (auto simp: py_index_def valid_index_def)

lemma py_index_Inr_valid: "py_index xs i = Inr x \<Longrightarrow> valid_index (length xs) i"
  by (auto simp: py_index_def valid_index_def split: if_splits)

lemma retrieve_loop_frame:
  "retrieve_loop md ps res h = Inr (rs, h') \<Longrightarrow>
   rs = res @ [next_ref h ..< next_ref h'] \<and>
   next_ref h' = next_ref h + length ps \<and>
   (\<forall>r < next_ref h. objs h' r = objs h r)"
proof (induction ps arbitrary: res h)
  case Nil
  then show ?case by simp
next
  case (Cons p ps)
  obtain d i where p: "p = (d, i)" by (cases p)
  from Cons.prems p obtain row where row: "py_index md i = Inr row"
    by (auto split: sum.splits)
  define h2 where "h2 = set_item (next_ref h) ''score'' (PyFloat d) (snd (new_dict (objs h row) h))"
  have rec: "retrieve_loop md ps (res @ [next_ref h]) h2 = Inr (rs, h')"
    using Cons.prems p row by (simp add: h2_def new_dict_def)
  have h2: "next_ref h2 = Suc (next_ref h)" "\<forall>r < next_ref h. objs h2 r = objs h r"
    by (simp_all add: h2_def new_dict_def set_item_def)
  from Cons.IH [OF rec] h2 have
    ih: "rs = (res @ [next_ref h]) @ [Suc (next_ref h) ..< next_ref h']"
      "next_ref h' = Suc (next_ref h) + length ps" "\<forall>r < next_ref h. objs h' r = objs h r"
    by simp_all
  have "[next_ref h ..< next_ref h'] = next_ref h # [Suc (next_ref h) ..< next_ref h']"
    using ih(2) by (intro upt_conv_Cons) simp
  with ih show ?case
    by simp
qed

lemma retrieve_loop_objs:
  "retrieve_loop md ps res h = Inr (rs, h') \<Longrightarrow> j < length ps \<Longrightarrow>
   \<exists>row. py_index md (snd (ps ! j)) = Inr row \<and>
     (row < next_ref h \<longrightarrow>
        objs h' (next_ref h + j) = (objs h row)(''score'' \<mapsto> PyFloat (fst (ps ! j))))"
proof (induction ps arbitrary: res h j)
  case Nil
  then show ?case by simp
next
  case (Cons p ps)
  obtain d i where p: "p = (d, i)" by (cases p)
  from Cons.prems p obtain row where row: "py_index md i = Inr row"
    by (auto split: sum.splits)
  define h2 where "h2 = set_item (next_ref h) ''score'' (PyFloat d) (snd (new_dict (objs h row) h))"
  have rec: "retrieve_loop md ps (res @ [next_ref h]) h2 = Inr (rs, h')"
    using Cons.prems p row by (simp add: h2_def new_dict_def)
  have h2: "next_ref h2 = Suc (next_ref h)" "\<forall>r < next_ref h. objs h2 r = objs h r"
    "objs h2 (next_ref h) = (objs h row)(''score'' \<mapsto> PyFloat d)"
    by (simp_all add: h2_def new_dict_def set_item_def)
  note fr = retrieve_loop_frame [OF rec]
  show ?case
  proof (cases j)
    case 0
    have "objs h' (next_ref h) = objs h2 (next_ref h)" using fr h2 by simp
    then show ?thesis using 0 p row h2 by simp
  next
    case (Suc j')
    then have "j' < length ps" using Cons.prems by simp
    from Cons.IH [OF rec this] obtain row' where
      r': "py_index md (snd (ps ! j')) = Inr row'"
        "row' < next_ref h2 \<longrightarrow>
           objs h' (next_ref h2 + j') = (objs h2 row')(''score'' \<mapsto> PyFloat (fst (ps ! j')))"
      by blast
    then show ?thesis using Suc h2 by auto
  qed
qed

lemma retrieve_loop_returns:
  "\<forall>p \<in> set ps. valid_index (length md) (snd p) \<Longrightarrow> \<exists>rs h'. retrieve_loop md ps res h = Inr (rs, h')"
proof (induction ps arbitrary: res h)
  case Nil
  then show ?case by simp
next
  case (Cons p ps)
  obtain d i where p: "p = (d, i)" by (cases p)
  then obtain row where "py_index md i = Inr row"
    using Cons.prems py_index_valid [of md i] by auto
  then show ?case using Cons p by (simp add: new_dict_def)
qed

lemma retrieve_loop_valid:
  "retrieve_loop md ps res h = Inr (rs, h') \<Longrightarrow> p \<in> set ps \<Longrightarrow> valid_index (length md) (snd p)"
proof (induction ps arbitrary: res h)
  case Nil
  then show ?case by simp
next
  case (Cons q ps)
  obtain d i where q: "q = (d, i)" by (cases q)
  from Cons.prems q obtain row where row: "py_index md i = Inr row"
    by (auto split: sum.splits)
  then show ?case using Cons q
    by (auto simp: new_dict_def dest: py_index_Inr_valid)
qed


lemma retrieve_frame:
  assumes "retrieve vs q k h = Inr (rs, h')"
  shows "rs = [next_ref h ..< next_ref h']" and "next_ref h \<le> next_ref h'"
    and "\<forall>r < next_ref h. objs h' r = objs h r"
proof -
  obtain ds ixs where s: "index_search vs (embedder vs q) k = (ds, ixs)"
    by (cases "index_search vs (embedder vs q) k")
  with assms have "retrieve_loop (metadata vs) (zip ds ixs) [] h = Inr (rs, h')"
    by (simp add: retrieve_def)
  from retrieve_loop_frame [OF this]
  show "rs = [next_ref h ..< next_ref h']" and "next_ref h \<le> next_ref h'"
    and "\<forall>r < next_ref h. objs h' r = objs h r"
    by simp_all
qed

lemma retrieve_length:
  assumes "retrieve vs q k h = Inr (rs, h')" and "index_search vs (embedder vs q) k = (ds, ixs)"
  shows "length rs = min (length ds) (length ixs)"
proof -
  from assms have "retrieve_loop (metadata vs) (zip ds ixs) [] h = Inr (rs, h')"
    by (simp add: retrieve_def)
  from retrieve_loop_frame [OF this] show ?thesis by simp
qed

lemma retrieve_objs:
  assumes "retrieve vs q k h = Inr (rs, h')" and "index_search vs (embedder vs q) k = (ds, ixs)"
    and "refs_ok vs h" and "j < length rs"
  shows "\<exists>row \<in> set (metadata vs). py_index (metadata vs) (ixs ! j) = Inr row \<and>
           objs h' (rs ! j) = (objs h row)(''score'' \<mapsto> PyFloat (ds ! j))"
proof -
  from assms have l: "retrieve_loop (metadata vs) (zip ds ixs) [] h = Inr (rs, h')"
    by (simp add: retrieve_def)
  have j: "j < length (zip ds ixs)"
    using assms(4) retrieve_length [OF assms(1,2)] by simp
  from retrieve_loop_objs [OF l j] obtain row where
    row: "py_index (metadata vs) (ixs ! j) = Inr row"
      "row < next_ref h \<longrightarrow> objs h' (next_ref h + j) = (objs h row)(''score'' \<mapsto> PyFloat (ds ! j))"
    using j by auto
  have m: "row \<in> set (metadata vs)" using row(1) by (rule py_index_Inr)
  then have "row < next_ref h" using assms(3) by (simp add: refs_ok_def list_all_iff)
  moreover have "rs ! j = next_ref h + j"
    using retrieve_loop_frame [OF l] j by simp
  ultimately show ?thesis using row m by auto
qed

lemma retrieve_returns:
  assumes "search_ok vs q k"
  shows "\<exists>rs h'. retrieve vs q k h = Inr (rs, h')"
proof -
  obtain ds ixs where s: "index_search vs (embedder vs q) k = (ds, ixs)"
    by (cases "index_search vs (embedder vs q) k")
  with assms have "\<forall>p \<in> set (zip ds ixs). valid_index (length (metadata vs)) (snd p)"
    by (auto simp: search_ok_def list_all_iff dest: set_zip_rightD)
  from retrieve_loop_returns [OF this] s show ?thesis
    by (simp add: retrieve_def)
qed

lemma retrieve_refs_ok:
  assumes "retrieve vs q k h = Inr (rs, h')" and "refs_ok vs h"
  shows "refs_ok vs h'"
  using retrieve_frame(2) [OF assms(1)] assms(2)
  by (auto simp: refs_ok_def list_all_iff)

lemma retrieve_metadata:
  assumes "retrieve vs q k h = Inr (rs, h')" and "refs_ok vs h"
  shows "map (objs h') (metadata vs) = map (objs h) (metadata vs)"
  using retrieve_frame(3) [OF assms(1)] assms(2)
  by (auto simp: refs_ok_def list_all_iff)

subsection \<open>Ranking\<close>


lemma sample_refs_ok: "refs_ok sample_store sample_heap"
  by (simp add: refs_ok_def sample_store_def sample_heap_def)

lemma sample_search_nba:
  "index_search sample_store (embedder sample_store claim_nba) 5 =
     ([Finite (1 / 4), Finite (1 / 2), Finite (1 / 2), Finite 1, Finite (5 / 4)],
      [0, 1, 3, 4, 5])"
  by (simp add: sample_store_def sample_search_def sample_ranking_def sample_distances_def
      claim_nba_def claim_districts_def claim_deficit_def)

lemma sample_search_ok: "search_ok sample_store q 5"
  by (simp add: search_ok_def sample_store_def sample_search_def sample_ranking_def
      valid_index_def)



subsection \<open>Copies\<close>

lemma caller_step_invariant:
  assumes "(caller_step vs)\<^sup>*\<^sup>* (h, {}) (h', owned)"
  shows "next_ref h \<le> next_ref h' \<and> (\<forall>r \<in> owned. next_ref h \<le> r) \<and>
         (\<forall>r < next_ref h. objs h' r = objs h r)"
  using assms
proof (induction rule: rtranclp_induct2)
  case refl
  then show ?case by simp
next
  case (step g own g' own')
  from step.hyps(2) show ?case
  proof cases
    case (call query top_k rs)
    note f = retrieve_frame [OF call(2)]
    have "\<forall>r \<in> set rs. next_ref g \<le> r" using f(1) by simp
    then show ?thesis using step.IH f call(1) by auto
  next
    case (mutate r d)
    then show ?thesis using step.IH by auto
  qed
qed

text \<open>
  C8. A record returned by \<open>retrieve\<close> is an object of its own, not a row of the metadata
  table: the call leaves every row as it was, and so does any later change of a returned
  record. The table is the same after any sequence of calls of \<open>retrieve\<close> and of changes
  that a caller makes to the records it was given.
\<close>

theorem retrieve_copies_rows:
  assumes "refs_ok vs h"
  shows "(retrieve vs query top_k h = Inr (rs, h1) \<longrightarrow>
            set rs \<inter> set (metadata vs) = {} \<and>
            map (objs h1) (metadata vs) = map (objs h) (metadata vs) \<and>
            (\<forall>r \<in> set rs. \<forall>d.
               map (objs (h1\<lparr>objs := (objs h1)(r := d)\<rparr>)) (metadata vs)
                 = map (objs h) (metadata vs))) \<and>
         ((caller_step vs)\<^sup>*\<^sup>* (h, {}) (h', owned) \<longrightarrow>
            owned \<inter> set (metadata vs) = {} \<and>
            map (objs h') (metadata vs) = map (objs h) (metadata vs))"
proof (intro conjI impI)
  assume r: "retrieve vs query top_k h = Inr (rs, h1)"
  note f = retrieve_frame [OF r]
  have old: "\<forall>m \<in> set (metadata vs). m < next_ref h"
    using assms by (simp add: refs_ok_def list_all_iff)
  have new: "\<forall>r \<in> set rs. next_ref h \<le> r" using f(1) by simp
  show "set rs \<inter> set (metadata vs) = {}" using old new by fastforce
  show "map (objs h1) (metadata vs) = map (objs h) (metadata vs)"
    using old f(3) by simp
  show "\<forall>r \<in> set rs. \<forall>d.
      map (objs (h1\<lparr>objs := (objs h1)(r := d)\<rparr>)) (metadata vs) = map (objs h) (metadata vs)"
    using old new f(3) by fastforce
next
  assume "(caller_step vs)\<^sup>*\<^sup>* (h, {}) (h', owned)"
  note inv = caller_step_invariant [OF this]
  have old: "\<forall>m \<in> set (metadata vs). m < next_ref h"
    using assms by (simp add: refs_ok_def list_all_iff)
  show "owned \<inter> set (metadata vs) = {}" using old inv by fastforce
  show "map (objs h') (metadata vs) = map (objs h) (metadata vs)"
    using old inv by simp
qed


theorem retrieve_copies_rows_witness:
  "refs_ok sample_store sample_heap \<and>
   (\<exists>rs h1. retrieve sample_store claim_nba 5 sample_heap = Inr (rs, h1) \<and> rs \<noteq> [] \<and>
      (caller_step sample_store)\<^sup>*\<^sup>* (sample_heap, {})
        (h1\<lparr>objs := (objs h1)(hd rs := Map.empty)\<rparr>, set rs) \<and>
      set rs \<inter> set (metadata sample_store) = {} \<and>
      map (objs (h1\<lparr>objs := (objs h1)(hd rs := Map.empty)\<rparr>)) (metadata sample_store)
        = map (objs sample_heap) (metadata sample_store))"
proof -
  obtain rs h1 where r: "retrieve sample_store claim_nba 5 sample_heap = Inr (rs, h1)"
    using retrieve_returns [OF sample_search_ok] by blast
  have ne: "rs \<noteq> []" using retrieve_length [OF r sample_search_nba] by auto
  let ?h2 = "h1\<lparr>objs := (objs h1)(hd rs := Map.empty)\<rparr>"
  have "caller_step sample_store (sample_heap, {}) (h1, {} \<union> set rs)"
    using r by (rule caller_step.call)
  moreover have "caller_step sample_store (h1, {} \<union> set rs) (?h2, {} \<union> set rs)"
    by (rule caller_step.mutate) (use ne in simp)
  ultimately have run: "(caller_step sample_store)\<^sup>*\<^sup>* (sample_heap, {}) (?h2, set rs)"
    by simp
  from retrieve_copies_rows [OF sample_refs_ok, of claim_nba 5 rs h1 ?h2 "set rs"] r run
  show ?thesis using sample_refs_ok ne by blast
qed

section \<open>Claims about classification\<close>

subsection \<open>Evidence and the branches of the classifier\<close>

lemma statements_length: "statements h rs = Inr ev \<Longrightarrow> length ev = length rs"
  by (induction rs arbitrary: ev) (auto split: sum.splits)

lemma statements_cong: "map (objs g) xs = map (objs h) ys \<Longrightarrow> statements g xs = statements h ys"
proof (induction xs arbitrary: ys)
  case Nil
  then show ?case by simp
next
  case (Cons x xs)
  then obtain y ys' where "ys = y # ys'" "objs g x = objs h y" "map (objs g) xs = map (objs h) ys'"
    by (cases ys) auto
  with Cons.IH [of ys'] show ?case by (simp add: get_item_def split: option.splits sum.splits)
qed

lemma statements_returns:
  "\<forall>r \<in> set rs. has_statement h r \<Longrightarrow> \<exists>ev. statements h rs = Inr ev"
proof (induction rs)
  case Nil
  then show ?case by simp
next
  case (Cons r rs)
  then obtain ev where "statements h rs = Inr ev" by auto
  moreover from Cons.prems obtain s where "objs h r ''statement'' = Some (PyStr s)"
    by (auto simp: has_statement_def split: option.splits pyval.splits)
  ultimately show ?case by (simp add: get_item_def)
qed

lemma retrieve_has_statement:
  assumes "retrieve vs q k h = Inr (rs, h')" and "refs_ok vs h" and "rows_ok vs h"
  shows "\<forall>r \<in> set rs. has_statement h' r"
proof
  fix r
  assume "r \<in> set rs"
  then obtain j where j: "j < length rs" "r = rs ! j" by (auto simp: in_set_conv_nth)
  obtain ds ixs where s: "index_search vs (embedder vs q) k = (ds, ixs)"
    by (cases "index_search vs (embedder vs q) k")
  from retrieve_objs [OF assms(1) s assms(2) j(1)] obtain row where
    row: "row \<in> set (metadata vs)" "objs h' r = (objs h row)(''score'' \<mapsto> PyFloat (ds ! j))"
    using j(2) by auto
  from row(1) assms(3) have "has_statement h row" by (simp add: rows_ok_def list_all_iff)
  then show "has_statement h' r" using row(2) by (simp add: has_statement_def)
qed

lemma retrieve_rows_ok:
  assumes "retrieve vs q k h = Inr (rs, h')" and "refs_ok vs h" and "rows_ok vs h"
  shows "rows_ok vs h'"
proof -
  have "\<forall>m \<in> set (metadata vs). objs h' m = objs h m"
    using retrieve_frame(3) [OF assms(1)] assms(2) by (auto simp: refs_ok_def list_all_iff)
  then show ?thesis using assms(3) by (simp add: rows_ok_def list_all_iff has_statement_def)
qed

text \<open>What \<open>classify_claim\<close> returns, branch by branch.\<close>

lemma classify_claim_error:
  "retrieve vs c TOP_K h = Inl e \<Longrightarrow> classify_claim repr vs c h = Inl e"
  by (simp add: classify_claim_def)

lemma classify_claim_empty:
  "retrieve vs c TOP_K h = Inr ([], h') \<Longrightarrow>
   classify_claim repr vs c h =
     Inr (\<lparr>claim = c, retrieved_facts = [], verdict = ''Unverifiable'',
            reasoning = reasoning_no_facts, evidence = []\<rparr>, h')"
  by (simp add: classify_claim_def)

lemma classify_claim_no_numbers:
  assumes "retrieve vs c TOP_K h = Inr (t # rest, h')"
    and "objs h' t ''statement'' = Some (PyStr tf)"
    and "extract_numbers c = [] \<or> extract_numbers tf = []"
  shows "classify_claim repr vs c h =
     Inr (\<lparr>claim = c, retrieved_facts = t # rest, verdict = ''Unverifiable'',
            reasoning = reasoning_not_comparable, evidence = []\<rparr>, h')"
  using assms
  by (auto simp: classify_claim_def get_item_def extract_numbers_of_def split: list.splits)

lemma classify_claim_numbers:
  assumes "retrieve vs c TOP_K h = Inr (t # rest, h')"
    and "objs h' t ''statement'' = Some (PyStr tf)"
    and "extract_numbers c = cn # cns" and "extract_numbers tf = fn # fns"
    and "float_div (float_abs (float_sub cn fn)) (py_max (float_abs fn) eps) = Inr rel"
    and "statements h' (take 3 (t # rest)) = Inr ev"
  shows "classify_claim repr vs c h =
     Inr (\<lparr>claim = c, retrieved_facts = t # rest,
            verdict = (if float_le rel tolerance then ''True'' else ''False''),
            reasoning = (if float_le rel tolerance then reasoning_close repr cn fn
                         else reasoning_different repr cn fn),
            evidence = ev\<rparr>, h')"
  using assms
  by (simp add: classify_claim_def get_item_def extract_numbers_of_def)

lemma classify_claim_Inr:
  assumes "classify_claim repr vs c h = Inr (v, h')"
  obtains (empty) "retrieve vs c TOP_K h = Inr ([], h')"
     "v = \<lparr>claim = c, retrieved_facts = [], verdict = ''Unverifiable'',
           reasoning = reasoning_no_facts, evidence = []\<rparr>"
  | (no_numbers) t rest tf where "retrieve vs c TOP_K h = Inr (t # rest, h')"
     "objs h' t ''statement'' = Some (PyStr tf)"
     "extract_numbers c = [] \<or> extract_numbers tf = []"
     "v = \<lparr>claim = c, retrieved_facts = t # rest, verdict = ''Unverifiable'',
           reasoning = reasoning_not_comparable, evidence = []\<rparr>"
  | (numbers) t rest tf cn cns fn fns rel where "retrieve vs c TOP_K h = Inr (t # rest, h')"
     "objs h' t ''statement'' = Some (PyStr tf)"
     "extract_numbers c = cn # cns" "extract_numbers tf = fn # fns"
     "float_div (float_abs (float_sub cn fn)) (py_max (float_abs fn) eps) = Inr rel"
     "statements h' (take 3 (t # rest)) = Inr (evidence v)"
     "v = \<lparr>claim = c, retrieved_facts = t # rest,
           verdict = (if float_le rel tolerance then ''True'' else ''False''),
           reasoning = (if float_le rel tolerance then reasoning_close repr cn fn
                        else reasoning_different repr cn fn),
           evidence = evidence v\<rparr>"
proof -
  from assms obtain rs where r: "retrieve vs c TOP_K h = Inr (rs, h')"
    by (auto simp: classify_claim_def split: sum.splits list.splits prod.splits if_splits)
  show ?thesis
  proof (cases rs)
    case Nil
    with r assms show ?thesis using empty by (simp add: classify_claim_empty)
  next
    case (Cons t rest)
    with r assms obtain tf where tf: "objs h' t ''statement'' = Some (PyStr tf)"
      by (auto simp: classify_claim_def get_item_def extract_numbers_of_def
          split: option.splits pyval.splits)
    show ?thesis
    proof (cases "extract_numbers c = [] \<or> extract_numbers tf = []")
      case True
      from classify_claim_no_numbers [OF r [unfolded Cons] tf True, of repr] assms
      show ?thesis using no_numbers [OF r [unfolded Cons] tf True] by simp
    next
      case False
      then obtain cn cns fn fns where
        n: "extract_numbers c = cn # cns" "extract_numbers tf = fn # fns"
        by (cases "extract_numbers c"; cases "extract_numbers tf") auto
      obtain rel where
        d: "float_div (float_abs (float_sub cn fn)) (py_max (float_abs fn) eps) = Inr rel"
        using float_div_eps by blast
      from assms r Cons tf n d obtain ev where
        ev: "statements h' (take 3 (t # rest)) = Inr ev"
        by (auto simp: classify_claim_def get_item_def extract_numbers_of_def
            split: sum.splits if_splits)
      from classify_claim_numbers [OF r [unfolded Cons] tf n d ev, of repr] assms
      have v: "v = \<lparr>claim = c, retrieved_facts = t # rest,
           verdict = (if float_le rel tolerance then ''True'' else ''False''),
           reasoning = (if float_le rel tolerance then reasoning_close repr cn fn
                        else reasoning_different repr cn fn),
           evidence = ev\<rparr>" by simp
      then have "evidence v = ev" by simp
      with v ev show ?thesis using numbers [OF r [unfolded Cons] tf n d] by simp
    qed
  qed
qed

subsection \<open>Numeric comparison\<close>

lemma retrieve_again:
  assumes "refs_ok vs h" and "retrieve vs q k h = Inr (rs1, h1)"
  shows "\<exists>rs2 h2. retrieve vs q k h1 = Inr (rs2, h2) \<and>
           map (objs h2) rs2 = map (objs h1) rs1 \<and>
           map (objs h2) rs1 = map (objs h1) rs1"
proof -
  obtain ds ixs where s: "index_search vs (embedder vs q) k = (ds, ixs)"
    by (cases "index_search vs (embedder vs q) k")
  from assms(2) s have l1: "retrieve_loop (metadata vs) (zip ds ixs) [] h = Inr (rs1, h1)"
    by (simp add: retrieve_def)
  then have "\<forall>p \<in> set (zip ds ixs). valid_index (length (metadata vs)) (snd p)"
    by (blast dest: retrieve_loop_valid)
  from retrieve_loop_returns [OF this] obtain rs2 h2 where
    "retrieve_loop (metadata vs) (zip ds ixs) [] h1 = Inr (rs2, h2)" by blast
  with s have r2: "retrieve vs q k h1 = Inr (rs2, h2)" by (simp add: retrieve_def)
  have ok1: "refs_ok vs h1" using assms by (blast intro: retrieve_refs_ok)
  have len: "length rs2 = length rs1"
    using retrieve_length [OF r2 s] retrieve_length [OF assms(2) s] by simp
  have "objs h2 (rs2 ! j) = objs h1 (rs1 ! j)" if j: "j < length rs1" for j
  proof -
    from retrieve_objs [OF assms(2) s assms(1) j] obtain row where
      a: "row \<in> set (metadata vs)" "py_index (metadata vs) (ixs ! j) = Inr row"
        "objs h1 (rs1 ! j) = (objs h row)(''score'' \<mapsto> PyFloat (ds ! j))" by blast
    from retrieve_objs [OF r2 s ok1] j len obtain row' where
      b: "py_index (metadata vs) (ixs ! j) = Inr row'"
        "objs h2 (rs2 ! j) = (objs h1 row')(''score'' \<mapsto> PyFloat (ds ! j))" by auto
    have "row' = row" using a(2) b(1) by simp
    moreover have "row < next_ref h" using a(1) assms(1) by (simp add: refs_ok_def list_all_iff)
    then have "objs h1 row = objs h row" using retrieve_frame(3) [OF assms(2)] by simp
    ultimately show ?thesis using a(3) b(2) by simp
  qed
  then have "map (objs h2) rs2 = map (objs h1) rs1"
    using len by (simp add: list_eq_iff_nth_eq)
  moreover have "\<forall>r \<in> set rs1. r < next_ref h1"
    using retrieve_frame(1) [OF assms(2)] by simp
  then have "map (objs h2) rs1 = map (objs h1) rs1"
    using retrieve_frame(3) [OF r2] by simp
  ultimately show ?thesis using r2 by blast
qed

lemma classify_claim_returns:
  assumes "refs_ok vs h" and "rows_ok vs h" and "search_ok vs c TOP_K"
  shows "\<exists>v h'. classify_claim repr vs c h = Inr (v, h') \<and> claim v = c \<and>
           refs_ok vs h' \<and> rows_ok vs h'"
proof -
  from retrieve_returns [OF assms(3)] obtain rs h' where
    r: "retrieve vs c TOP_K h = Inr (rs, h')" by blast
  have ok: "refs_ok vs h'" "rows_ok vs h'"
    using r assms by (blast intro: retrieve_refs_ok retrieve_rows_ok)+
  note hs = retrieve_has_statement [OF r assms(1,2)]
  show ?thesis
  proof (cases rs)
    case Nil
    with r ok show ?thesis by (simp add: classify_claim_empty)
  next
    case (Cons t rest)
    with hs obtain tf where tf: "objs h' t ''statement'' = Some (PyStr tf)"
      by (auto simp: has_statement_def split: option.splits pyval.splits)
    show ?thesis
    proof (cases "extract_numbers c = [] \<or> extract_numbers tf = []")
      case True
      from classify_claim_no_numbers [OF r [unfolded Cons] tf True] ok show ?thesis by simp
    next
      case False
      then obtain cn cns fn fns where
        n: "extract_numbers c = cn # cns" "extract_numbers tf = fn # fns"
        by (cases "extract_numbers c"; cases "extract_numbers tf") auto
      obtain rel where
        d: "float_div (float_abs (float_sub cn fn)) (py_max (float_abs fn) eps) = Inr rel"
        using float_div_eps by blast
      have "\<forall>x \<in> set (take 3 (t # rest)). has_statement h' x"
        using hs Cons by (auto dest: in_set_takeD)
      from statements_returns [OF this] obtain ev where
        ev: "statements h' (take 3 (t # rest)) = Inr ev" by blast
      from classify_claim_numbers [OF r [unfolded Cons] tf n d ev] ok show ?thesis by simp
    qed
  qed
qed

text \<open>
  The corpus of two statements: every search ranks one of them first, and the classifier
  compares the first figure of the claim with the first figure of that statement.
\<close>

lemma boundary_ok:
  "refs_ok boundary_store boundary_heap" "rows_ok boundary_store boundary_heap"
  "search_ok boundary_store q TOP_K"
  by (simp_all add: refs_ok_def rows_ok_def search_ok_def has_statement_def boundary_store_def
      boundary_heap_def boundary_search_def sample_row_def valid_index_def TOP_K_def
      eval_nat_numeral)

lemma boundary_search_top:
  "index_search boundary_store (embedder boundary_store q) TOP_K =
     ([Finite (1 / 4), Finite (1 / 2), Finite 340282346638528859811704183484516925440,
       Finite 340282346638528859811704183484516925440,
       Finite 340282346638528859811704183484516925440],
      (if q = claim_outlay then [1, 0] else [0, 1]) @ [- 1, - 1, - 1])"
  by (simp add: boundary_store_def boundary_search_def TOP_K_def eval_nat_numeral)

lemma boundary_top:
  assumes "retrieve boundary_store q TOP_K boundary_heap = Inr (rs, h')"
  shows "\<exists>t rest. rs = t # rest \<and> length rest = 4 \<and>
           objs h' t ''statement'' =
             Some (PyStr (if q = claim_outlay then statement_outlay else statement_rate))"
proof -
  note s = boundary_search_top [of q]
  from retrieve_length [OF assms s] obtain t rest where rs: "rs = t # rest" "length rest = 4"
    by (cases rs) (auto split: if_splits)
  from retrieve_objs [OF assms s boundary_ok(1), of 0] rs
  have "objs h' t ''statement'' =
      Some (PyStr (if q = claim_outlay then statement_outlay else statement_rate))"
    by (auto simp: py_index_def boundary_store_def boundary_heap_def sample_row_def
        split: if_splits)
  with rs show ?thesis by blast
qed

lemma boundary_classify:
  assumes "extract_numbers q = c # cs"
    and "extract_numbers (if q = claim_outlay then statement_outlay else statement_rate) = f # fs"
    and "float_div (float_abs (float_sub c f)) (py_max (float_abs f) eps) = Inr rel"
  shows "map_sum id (verdict \<circ> fst) (classify_claim repr boundary_store q boundary_heap)
           = Inr (if float_le rel tolerance then ''True'' else ''False'')"
    and "map_sum id (hd \<circ> evidence \<circ> fst) (classify_claim repr boundary_store q boundary_heap)
           = Inr (PyStr (if q = claim_outlay then statement_outlay else statement_rate))"
proof -
  obtain rs h' where r: "retrieve boundary_store q TOP_K boundary_heap = Inr (rs, h')"
    using retrieve_returns [OF boundary_ok(3)] by blast
  from boundary_top [OF r] obtain t rest where
    rs: "rs = t # rest"
    and tf: "objs h' t ''statement'' =
      Some (PyStr (if q = claim_outlay then statement_outlay else statement_rate))" by blast
  have "\<forall>x \<in> set (take 3 (t # rest)). has_statement h' x"
    using retrieve_has_statement [OF r boundary_ok(1,2)] rs by (auto dest: in_set_takeD)
  from statements_returns [OF this] obtain ev where
    ev: "statements h' (take 3 (t # rest)) = Inr ev" by blast
  then have hd: "hd ev = PyStr (if q = claim_outlay then statement_outlay else statement_rate)"
    using tf by (auto simp: get_item_def split: sum.splits)
  note v = classify_claim_numbers [OF r [unfolded rs] tf assms ev, of repr]
  show "map_sum id (verdict \<circ> fst) (classify_claim repr boundary_store q boundary_heap)
           = Inr (if float_le rel tolerance then ''True'' else ''False'')"
    by (simp add: v)
  show "map_sum id (hd \<circ> evidence \<circ> fst) (classify_claim repr boundary_store q boundary_heap)
           = Inr (PyStr (if q = claim_outlay then statement_outlay else statement_rate))"
    by (simp add: v hd)
qed

lemma findall_rate:
  "findall_number (remove_commas claim_rate) = [''3.6'']"
  "findall_number (remove_commas statement_rate) = [''3'']"
  by (simp_all add: claim_rate_def statement_rate_def remove_commas_def findall_number.simps(2)
      is_digit_def Let_def)

lemma numbers_rate:
  "extract_numbers claim_rate = [py_float ''3.6'']"
  "extract_numbers statement_rate = [py_float ''3'']"
  by (simp_all add: extract_numbers_def findall_rate)

lemma decimal_rate: "decimal_value ''3.6'' = 36 / 10" "decimal_value ''3'' = 3"
  by (simp_all add: decimal_value_def digits_val_def digit_val_def is_digit_def Let_def)

lemma numbers_outlay:
  "extract_numbers claim_outlay = [Finite 7200000000000003]"
  "extract_numbers statement_outlay = [Finite 9000000000000004]"
  using round_double_of_nat [of 7200000000000003] round_double_of_nat [of 9000000000000004]
  by (simp_all add: claim_outlay_def statement_outlay_def literal_eval)

lemma rel_diff_outlay:
  "float_div (float_abs (float_sub (Finite 7200000000000003) (Finite 9000000000000004)))
     (py_max (float_abs (Finite 9000000000000004)) eps)
     = Inr (Finite (3602879701896397 / 18014398509481984))"
proof -
  have "round_double (- 1800000000000001) = Finite (- 1800000000000001)"
    by (rule round_double_neg [where k = 50]) (simp_all add: float_eval)
  moreover have "round_double (1800000000000001 / 9000000000000004)
      = Finite (3602879701896397 / 18014398509481984)"
    by (rule round_double_pos [where k = "- 3"]) (simp_all add: float_eval)
  moreover have "py_max (Finite 9000000000000004) eps = Finite 9000000000000004"
    by (simp add: py_max_def eps_value)
  ultimately show ?thesis by simp
qed

text \<open>
  C1 does not hold as it is stated: the relative difference is computed in doubles, and the
  verdict follows the computed value, not the exact one. For \<open>7200000000000003\<close> against the
  top statement's \<open>9000000000000004\<close> (both are doubles) the exact relative difference is
  greater than \<open>0.20\<close>, and greater than the double of \<open>0.2\<close> as well, yet the verdict is
  \<open>True\<close>. For the literal \<open>3.6\<close> against \<open>3\<close> the relative difference of the two literals is
  \<open>0.20\<close>, yet the verdict is \<open>False\<close>.
\<close>

theorem classify_claim_boundary:
  "extract_numbers claim_outlay = [Finite 7200000000000003] \<and>
   extract_numbers statement_outlay = [Finite 9000000000000004] \<and>
   map_sum id (hd \<circ> evidence \<circ> fst)
     (classify_claim sample_repr boundary_store claim_outlay boundary_heap)
     = Inr (PyStr statement_outlay) \<and>
   (2 / 10 :: rat) < \<bar>7200000000000003 - 9000000000000004\<bar>
                      / max \<bar>9000000000000004\<bar> (1 / 1000000) \<and>
   float_gt (Finite (\<bar>7200000000000003 - 9000000000000004\<bar>
                      / max \<bar>9000000000000004\<bar> (1 / 1000000))) tolerance \<and>
   map_sum id (verdict \<circ> fst)
     (classify_claim sample_repr boundary_store claim_outlay boundary_heap) = Inr ''True'' \<and>
   extract_numbers claim_rate = [py_float ''3.6''] \<and>
   extract_numbers statement_rate = [py_float ''3''] \<and>
   decimal_value ''3.6'' = 36 / 10 \<and> decimal_value ''3'' = 3 \<and>
   map_sum id (hd \<circ> evidence \<circ> fst)
     (classify_claim sample_repr boundary_store claim_rate boundary_heap)
     = Inr (PyStr statement_rate) \<and>
   \<bar>36 / 10 - 3\<bar> / max \<bar>3\<bar> (1 / 1000000) \<le> (2 / 10 :: rat) \<and>
   map_sum id (verdict \<circ> fst)
     (classify_claim sample_repr boundary_store claim_rate boundary_heap) = Inr ''False''"
proof -
  have ne: "claim_rate \<noteq> claim_outlay" by (simp add: claim_rate_def claim_outlay_def)
  have o: "extract_numbers (if claim_outlay = claim_outlay then statement_outlay
      else statement_rate) = [Finite 9000000000000004]"
    by (simp add: numbers_outlay)
  have r: "extract_numbers (if claim_rate = claim_outlay then statement_outlay
      else statement_rate) = [py_float ''3'']"
    by (simp add: numbers_rate ne)
  note bo = boundary_classify [OF numbers_outlay(1) o rel_diff_outlay, of sample_repr]
  note br = boundary_classify [OF numbers_rate(1) r rel_diff_rounding(1), of sample_repr]
  have "map_sum id (verdict \<circ> fst)
     (classify_claim sample_repr boundary_store claim_outlay boundary_heap) = Inr ''True''"
    using bo(1) by (simp add: tolerance_value)
  moreover have "map_sum id (verdict \<circ> fst)
     (classify_claim sample_repr boundary_store claim_rate boundary_heap) = Inr ''False''"
    using br(1) rel_diff_rounding(2) by simp
  moreover have "map_sum id (hd \<circ> evidence \<circ> fst)
     (classify_claim sample_repr boundary_store claim_outlay boundary_heap)
     = Inr (PyStr statement_outlay)" using bo(2) by simp
  moreover have "map_sum id (hd \<circ> evidence \<circ> fst)
     (classify_claim sample_repr boundary_store claim_rate boundary_heap)
     = Inr (PyStr statement_rate)" using br(2) ne by simp
  moreover have "(2 / 10 :: rat) < \<bar>7200000000000003 - 9000000000000004\<bar>
                      / max \<bar>9000000000000004\<bar> (1 / 1000000)" by simp
  moreover have "float_gt (Finite (\<bar>7200000000000003 - 9000000000000004\<bar>
                      / max \<bar>9000000000000004\<bar> (1 / 1000000))) tolerance"
    by (simp add: tolerance_value)
  moreover have "\<bar>36 / 10 - 3\<bar> / max \<bar>3\<bar> (1 / 1000000) \<le> (2 / 10 :: rat)" by simp
  ultimately show ?thesis
    using numbers_outlay numbers_rate decimal_rate by simp
qed

text \<open>
  C1, amended. When retrieval returns a non-empty list and both the claim text and the
  statement of the first record contain a numeric literal, let \<open>c\<close> and \<open>f\<close> be the doubles
  of the first literals of the two texts. The relative difference is computed in doubles
  without an error, and \<open>classify_claim\<close> returns the verdict \<open>True\<close> exactly when the
  computed value is at most the double of \<open>0.2\<close>, and the verdict \<open>False\<close> otherwise. In
  terms of the exact quotient \<open>|c - f| / max(|f|, 1e-6)\<close>: the verdict is \<open>True\<close> when the
  quotient is at most \<open>0.2 * (1 - 2 ^ - 50)\<close>, and \<open>False\<close> when it is at least
  \<open>0.2 * (1 + 2 ^ - 50)\<close> or when one of the two literals is too large for a finite double.
  In every case the evidence is the list of the statements of the first three records, so it
  has between one and three entries.
\<close>

theorem classify_claim_tolerance:
  assumes "refs_ok vs h" and "rows_ok vs h"
    and "retrieve vs claim_text TOP_K h = Inr (t # rest, h')"
    and "objs h' t ''statement'' = Some (PyStr top_fact)"
    and "extract_numbers claim_text = c # cs" and "extract_numbers top_fact = f # fs"
  shows "\<exists>rel_diff v.
           float_div (float_abs (float_sub c f)) (py_max (float_abs f) eps) = Inr rel_diff \<and>
           classify_claim repr vs claim_text h = Inr (v, h') \<and>
           (verdict v = ''True'' \<longleftrightarrow> float_le rel_diff tolerance) \<and>
           (verdict v = ''False'' \<longleftrightarrow> \<not> float_le rel_diff tolerance) \<and>
           (\<forall>a b. c = Finite a \<and> f = Finite b \<and>
              \<bar>a - b\<bar> / max \<bar>b\<bar> (1 / 1000000) \<le> 1 / 5 * (1 - 1 / 2 ^ 50) \<longrightarrow>
              verdict v = ''True'') \<and>
           (\<forall>a b. c = Finite a \<and> f = Finite b \<and>
              1 / 5 * (1 + 1 / 2 ^ 50) \<le> \<bar>a - b\<bar> / max \<bar>b\<bar> (1 / 1000000) \<longrightarrow>
              verdict v = ''False'') \<and>
           (c = PosInf \<or> f = PosInf \<longrightarrow> verdict v = ''False'') \<and>
           retrieved_facts v = t # rest \<and>
           statements h' (take 3 (t # rest)) = Inr (evidence v) \<and>
           0 < length (evidence v) \<and> length (evidence v) \<le> 3"
proof -
  obtain rel where
    d: "float_div (float_abs (float_sub c f)) (py_max (float_abs f) eps) = Inr rel"
    using float_div_eps by blast
  have "\<forall>x \<in> set (take 3 (t # rest)). has_statement h' x"
    using retrieve_has_statement [OF assms(3,1,2)] by (auto dest: in_set_takeD)
  from statements_returns [OF this] obtain ev where
    ev: "statements h' (take 3 (t # rest)) = Inr ev" by blast
  have len: "0 < length ev" "length ev \<le> 3"
    using statements_length [OF ev] by simp_all
  define v where "v = \<lparr>claim = claim_text, retrieved_facts = t # rest,
            verdict = (if float_le rel tolerance then ''True'' else ''False''),
            reasoning = (if float_le rel tolerance then reasoning_close repr c f
                         else reasoning_different repr c f),
            evidence = ev\<rparr>"
  have cl: "classify_claim repr vs claim_text h = Inr (v, h')"
    unfolding v_def by (rule classify_claim_numbers [OF assms(3,4,5,6) d ev])
  have vt: "verdict v = ''True'' \<longleftrightarrow> float_le rel tolerance"
    and vf: "verdict v = ''False'' \<longleftrightarrow> \<not> float_le rel tolerance"
    by (simp_all add: v_def)
  have within: "verdict v = ''True''"
    if "c = Finite a \<and> f = Finite b \<and>
        \<bar>a - b\<bar> / max \<bar>b\<bar> (1 / 1000000) \<le> 1 / 5 * (1 - 1 / 2 ^ 50)" for a b
  proof -
    have "Finite b \<in> set (extract_numbers top_fact)" using that assms(6) by simp
    then have b: "\<bar>b\<bar> < 2 ^ 1024" by (rule extract_numbers_range)
    have "0 < max \<bar>b\<bar> (1 / 1000000)" by (simp add: less_max_iff_disj)
    with that have "\<bar>a - b\<bar> \<le> 1 / 5 * (1 - 1 / 2 ^ 50) * max \<bar>b\<bar> (1 / 1000000)"
      by (simp add: pos_divide_le_eq)
    from rel_diff_within [OF b this] d that have "float_le rel tolerance" by auto
    then show ?thesis by (simp add: vt)
  qed
  have beyond: "verdict v = ''False''"
    if "c = Finite a \<and> f = Finite b \<and>
        1 / 5 * (1 + 1 / 2 ^ 50) \<le> \<bar>a - b\<bar> / max \<bar>b\<bar> (1 / 1000000)" for a b
  proof -
    have "0 < max \<bar>b\<bar> (1 / 1000000)" by (simp add: less_max_iff_disj)
    with that have "1 / 5 * (1 + 1 / 2 ^ 50) * max \<bar>b\<bar> (1 / 1000000) \<le> \<bar>a - b\<bar>"
      by (simp add: pos_le_divide_eq)
    from rel_diff_beyond [OF this] d that have "\<not> float_le rel tolerance" by auto
    then show ?thesis by (simp add: vf)
  qed
  have inf: "verdict v = ''False''" if "c = PosInf \<or> f = PosInf"
  proof -
    from rel_diff_infinite [OF that] d have "\<not> float_le rel tolerance" by auto
    then show ?thesis by (simp add: vf)
  qed
  have "retrieved_facts v = t # rest" "evidence v = ev" by (simp_all add: v_def)
  with d cl vt vf within beyond inf ev len show ?thesis by blast
qed

lemma sample_rows_ok: "rows_ok sample_store sample_heap"
  by (simp add: rows_ok_def has_statement_def sample_store_def sample_heap_def sample_row_def)

lemma sample_search_ok_top: "search_ok sample_store q TOP_K"
  by (simp add: TOP_K_def sample_search_ok)

lemma round_double_3984: "round_double (996 / 25) = Finite (1401745384019067 / 35184372088832)"
  by (rule round_double_pos [where k = 5]) (simp_all add: float_eval)

lemma numbers_claim_nba:
  "extract_numbers claim_nba = [Finite (1401745384019067 / 35184372088832)]"
  by (simp add: claim_nba_def literal_eval round_double_3984)

lemma numbers_statement_nba: "extract_numbers statement_nba = [Finite 40]"
  using round_double_of_nat [of 40] by (simp add: statement_nba_def literal_eval)

lemma numbers_claim_deficit: "extract_numbers claim_deficit = [Finite 40]"
  using round_double_of_nat [of 40] by (simp add: claim_deficit_def literal_eval)

lemma numbers_statement_deficit: "extract_numbers statement_deficit = [Finite 40]"
  using round_double_of_nat [of 40] by (simp add: statement_deficit_def literal_eval)

lemma py_max_40: "py_max (Finite 40) eps = Finite 40"
  by (simp add: py_max_def eps_value)

lemma rel_diff_nba:
  "float_div (float_abs (float_sub (Finite (1401745384019067 / 35184372088832)) (Finite 40)))
     (py_max (float_abs (Finite 40)) eps) = Inr (Finite (2305843009213645 / 576460752303423488))"
proof -
  have "round_double (1401745384019067 / 35184372088832 - 40)
      = Finite (- (5629499534213 / 35184372088832))"
    by (rule round_double_neg [where k = "- 3"]) (simp_all add: float_eval)
  moreover have "round_double (5629499534213 / 35184372088832 / 40)
      = Finite (2305843009213645 / 576460752303423488)"
    by (rule round_double_pos [where k = "- 8"]) (simp_all add: float_eval)
  ultimately show ?thesis by (simp add: py_max_40)
qed

lemma rel_diff_same:
  "float_div (float_abs (float_sub (Finite 40) (Finite 40))) (py_max (float_abs (Finite 40)) eps)
     = Inr (Finite 0)"
  by (simp add: py_max_40 round_double_def)

lemma sample_top_nba:
  assumes "retrieve sample_store claim_nba TOP_K sample_heap = Inr (rs, h')"
  shows "\<exists>t rest. rs = t # rest \<and> length rest = 4 \<and>
           objs h' t ''statement'' = Some (PyStr statement_nba)"
proof -
  note s = sample_search_nba [folded TOP_K_def]
  from retrieve_length [OF assms s] obtain t rest where rs: "rs = t # rest" "length rest = 4"
    by (cases rs) auto
  from retrieve_objs [OF assms s sample_refs_ok, of 0] rs
  have "objs h' t ''statement'' = Some (PyStr statement_nba)"
    by (auto simp: py_index_def sample_store_def sample_heap_def sample_row_def)
  with rs show ?thesis by blast
qed

theorem classify_claim_tolerance_witness:
  "refs_ok sample_store sample_heap \<and> rows_ok sample_store sample_heap \<and>
   extract_numbers claim_nba = [Finite (1401745384019067 / 35184372088832)] \<and>
   extract_numbers statement_nba = [Finite 40] \<and>
   \<bar>1401745384019067 / 35184372088832 - 40\<bar> / max \<bar>40\<bar> (1 / 1000000)
     \<le> (1 / 5 * (1 - 1 / 2 ^ 50) :: rat) \<and>
   (\<exists>t rest h' v. retrieve sample_store claim_nba TOP_K sample_heap = Inr (t # rest, h') \<and>
      objs h' t ''statement'' = Some (PyStr statement_nba) \<and>
      classify_claim sample_repr sample_store claim_nba sample_heap = Inr (v, h') \<and>
      verdict v = ''True'' \<and> length (evidence v) = 3)"
proof -
  obtain rs h' where r: "retrieve sample_store claim_nba TOP_K sample_heap = Inr (rs, h')"
    using retrieve_returns [OF sample_search_ok_top] by blast
  from sample_top_nba [OF r] obtain t rest where
    rs: "rs = t # rest" and len: "length rest = 4"
    and tf: "objs h' t ''statement'' = Some (PyStr statement_nba)" by blast
  have m: "\<bar>1401745384019067 / 35184372088832 - 40\<bar> / max \<bar>40\<bar> (1 / 1000000)
     \<le> (1 / 5 * (1 - 1 / 2 ^ 50) :: rat)" by simp
  from classify_claim_tolerance [OF sample_refs_ok sample_rows_ok r [unfolded rs] tf
      numbers_claim_nba numbers_statement_nba, of sample_repr]
  obtain v where
    v: "classify_claim sample_repr sample_store claim_nba sample_heap = Inr (v, h')"
      "\<forall>a b. Finite (1401745384019067 / 35184372088832) = Finite a \<and> Finite 40 = Finite b \<and>
          \<bar>a - b\<bar> / max \<bar>b\<bar> (1 / 1000000) \<le> 1 / 5 * (1 - 1 / 2 ^ 50) \<longrightarrow>
          verdict v = ''True''"
      "statements h' (take 3 (t # rest)) = Inr (evidence v)"
    by blast
  have "verdict v = ''True''" using v(2) m by blast
  moreover have "length (evidence v) = 3" using statements_length [OF v(3)] len by simp
  ultimately show ?thesis
    using r rs tf v(1) m sample_refs_ok sample_rows_ok numbers_claim_nba numbers_statement_nba
    by blast
qed

subsection \<open>Unverifiable claims and repeated calls\<close>




text \<open>
  C7. A second call of \<open>classify_claim\<close> on the same text, made after the first one has
  returned and with the index, the metadata table and the embedder unchanged, returns the
  same claim, verdict, reasoning and evidence, and retrieved records with the same contents;
  the records of the first call are left as they were.
\<close>

theorem classify_claim_repeatable:
  assumes "refs_ok vs h" and "classify_claim repr vs claim_text h = Inr (v1, h1)"
  shows "\<exists>v2 h2. classify_claim repr vs claim_text h1 = Inr (v2, h2) \<and>
           claim v2 = claim v1 \<and> verdict v2 = verdict v1 \<and>
           reasoning v2 = reasoning v1 \<and> evidence v2 = evidence v1 \<and>
           map (objs h2) (retrieved_facts v2) = map (objs h1) (retrieved_facts v1) \<and>
           map (objs h2) (retrieved_facts v1) = map (objs h1) (retrieved_facts v1)"
  using assms(2)
proof (cases rule: classify_claim_Inr)
  case empty
  from retrieve_again [OF assms(1) empty(1)] obtain h2 where
    "retrieve vs claim_text TOP_K h1 = Inr ([], h2)" by auto
  from classify_claim_empty [OF this, of repr] empty(2) show ?thesis by simp
next
  case (no_numbers t rest tf)
  from retrieve_again [OF assms(1) no_numbers(1)] obtain rs2 h2 where
    r2: "retrieve vs claim_text TOP_K h1 = Inr (rs2, h2)"
      "map (objs h2) rs2 = map (objs h1) (t # rest)"
      "map (objs h2) (t # rest) = map (objs h1) (t # rest)" by blast
  from r2(2) obtain t2 rest2 where rs2: "rs2 = t2 # rest2" "objs h2 t2 = objs h1 t"
    by (cases rs2) auto
  have "objs h2 t2 ''statement'' = Some (PyStr tf)" using rs2(2) no_numbers(2) by simp
  from classify_claim_no_numbers [OF r2(1) [unfolded rs2(1)] this no_numbers(3), of repr]
  show ?thesis using no_numbers(4) r2(2,3) rs2(1) by simp
next
  case (numbers t rest tf cn cns fn fns rel)
  from retrieve_again [OF assms(1) numbers(1)] obtain rs2 h2 where
    r2: "retrieve vs claim_text TOP_K h1 = Inr (rs2, h2)"
      "map (objs h2) rs2 = map (objs h1) (t # rest)"
      "map (objs h2) (t # rest) = map (objs h1) (t # rest)" by blast
  from r2(2) obtain t2 rest2 where rs2: "rs2 = t2 # rest2" "objs h2 t2 = objs h1 t"
    by (cases rs2) auto
  have tf: "objs h2 t2 ''statement'' = Some (PyStr tf)" using rs2(2) numbers(2) by simp
  have "map (objs h2) (take 3 (t2 # rest2)) = map (objs h1) (take 3 (t # rest))"
    using r2(2) rs2(1) by (simp only: take_map [symmetric])
  then have "statements h2 (take 3 (t2 # rest2)) = statements h1 (take 3 (t # rest))"
    by (rule statements_cong)
  then have ev: "statements h2 (take 3 (t2 # rest2)) = Inr (evidence v1)"
    using numbers(6) by simp
  from classify_claim_numbers [OF r2(1) [unfolded rs2(1)] tf numbers(3,4,5) ev, of repr]
  have c2: "classify_claim repr vs claim_text h1 =
     Inr (\<lparr>claim = claim_text, retrieved_facts = t2 # rest2,
            verdict = (if float_le rel tolerance then ''True'' else ''False''),
            reasoning = (if float_le rel tolerance then reasoning_close repr cn fn
                         else reasoning_different repr cn fn),
            evidence = evidence v1\<rparr>, h2)" .
  have f: "claim v1 = claim_text" "retrieved_facts v1 = t # rest"
    "verdict v1 = (if float_le rel tolerance then ''True'' else ''False'')"
    "reasoning v1 = (if float_le rel tolerance then reasoning_close repr cn fn
                         else reasoning_different repr cn fn)"
    by (subst numbers(7), simp)+
  show ?thesis using c2 f r2(2,3) rs2(1) by simp
qed

theorem classify_claim_repeatable_witness:
  "refs_ok sample_store sample_heap \<and>
   (\<exists>v1 h1 v2 h2.
      classify_claim sample_repr sample_store claim_nba sample_heap = Inr (v1, h1) \<and>
      classify_claim sample_repr sample_store claim_nba h1 = Inr (v2, h2) \<and>
      verdict v2 = verdict v1 \<and> reasoning v2 = reasoning v1 \<and> evidence v2 = evidence v1 \<and>
      map (objs h2) (retrieved_facts v2) = map (objs h1) (retrieved_facts v1))"
proof -
  obtain v1 h1 where
    c: "classify_claim sample_repr sample_store claim_nba sample_heap = Inr (v1, h1)"
    using classify_claim_returns [OF sample_refs_ok sample_rows_ok sample_search_ok_top] by blast
  from classify_claim_repeatable [OF sample_refs_ok c] c sample_refs_ok
  show ?thesis by blast
qed

subsection \<open>Signs\<close>

text \<open>
  C9. No value returned by \<open>extract_numbers\<close> is negative. A matched literal never contains
  a minus sign: the sign only separates what stands before it from what stands after it. So
  \<open>classify_claim\<close> compares a number written with a minus sign by its digits: the claim
  of a deficit of \<open>-40\<close> yields the same number as the official statement of \<open>40\<close>, and the
  verdict on it is \<open>True\<close>.
\<close>

theorem extract_numbers_unsigned:
  "(\<forall>x \<in> set (extract_numbers t). float_le (Finite 0) x) \<and>
   (\<forall>m \<in> set (findall_number (remove_commas t)). CHR ''-'' \<notin> set m) \<and>
   extract_numbers (a @ CHR ''-'' # b) = extract_numbers a @ extract_numbers b \<and>
   extract_numbers claim_deficit = extract_numbers statement_deficit \<and>
   (refs_ok vs h \<and> rows_ok vs h \<and>
    retrieve vs claim_deficit TOP_K h = Inr (r # rest, h') \<and>
    objs h' r ''statement'' = Some (PyStr statement_deficit) \<longrightarrow>
      (\<exists>v. classify_claim repr vs claim_deficit h = Inr (v, h') \<and> verdict v = ''True''))"
proof (intro conjI ballI impI)
  fix x
  assume "x \<in> set (extract_numbers t)"
  then show "float_le (Finite 0) x" by (rule extract_numbers_nonneg)
next
  fix m
  assume "m \<in> set (findall_number (remove_commas t))"
  then have "\<forall>c \<in> set m. is_digit c \<or> c = CHR ''.''"
    by (blast dest: findall_number_chars)
  moreover have "\<not> is_digit CHR ''-''" by (simp add: is_digit_def)
  ultimately show "CHR ''-'' \<notin> set m" by auto
next
  show "extract_numbers (a @ CHR ''-'' # b) = extract_numbers a @ extract_numbers b"
    by (rule extract_numbers_sep) (simp_all add: is_digit_def)
next
  show "extract_numbers claim_deficit = extract_numbers statement_deficit"
    by (simp add: numbers_claim_deficit numbers_statement_deficit)
next
  assume a: "refs_ok vs h \<and> rows_ok vs h \<and>
    retrieve vs claim_deficit TOP_K h = Inr (r # rest, h') \<and>
    objs h' r ''statement'' = Some (PyStr statement_deficit)"
  then have r: "retrieve vs claim_deficit TOP_K h = Inr (r # rest, h')"
    and tf: "objs h' r ''statement'' = Some (PyStr statement_deficit)" by simp_all
  have "\<forall>x \<in> set (take 3 (r # rest)). has_statement h' x"
    using retrieve_has_statement [OF r] a by (auto dest: in_set_takeD)
  from statements_returns [OF this] obtain ev where
    ev: "statements h' (take 3 (r # rest)) = Inr ev" by blast
  from classify_claim_numbers
    [OF r tf numbers_claim_deficit numbers_statement_deficit rel_diff_same ev, of repr]
  show "\<exists>v. classify_claim repr vs claim_deficit h = Inr (v, h') \<and> verdict v = ''True''"
    by (simp add: tolerance_value)
qed

lemma sample_search_deficit:
  "index_search sample_store (embedder sample_store claim_deficit) TOP_K =
     ([Finite (1 / 4), Finite (1 / 2), Finite (1 / 2), Finite 1, Finite (5 / 4)],
      [6, 0, 2, 1, 3])"
  by (simp add: sample_store_def sample_search_def sample_ranking_def sample_distances_def
      claim_deficit_def claim_districts_def TOP_K_def)

lemma sample_top_deficit:
  assumes "retrieve sample_store claim_deficit TOP_K sample_heap = Inr (rs, h')"
  shows "\<exists>t rest. rs = t # rest \<and> objs h' t ''statement'' = Some (PyStr statement_deficit)"
proof -
  from retrieve_length [OF assms sample_search_deficit] obtain t rest where rs: "rs = t # rest"
    by (cases rs) auto
  from retrieve_objs [OF assms sample_search_deficit sample_refs_ok, of 0] rs
  have "objs h' t ''statement'' = Some (PyStr statement_deficit)"
    by (auto simp: py_index_def sample_store_def sample_heap_def sample_row_def)
  with rs show ?thesis by blast
qed

theorem extract_numbers_unsigned_witness:
  "Finite 40 \<in> set (extract_numbers claim_deficit) \<and> float_le (Finite 0) (Finite 40) \<and>
   ''40'' \<in> set (findall_number (remove_commas claim_deficit)) \<and> CHR ''-'' \<notin> set ''40'' \<and>
   refs_ok sample_store sample_heap \<and> rows_ok sample_store sample_heap \<and>
   (\<exists>r rest h' v. retrieve sample_store claim_deficit TOP_K sample_heap = Inr (r # rest, h') \<and>
      objs h' r ''statement'' = Some (PyStr statement_deficit) \<and>
      classify_claim sample_repr sample_store claim_deficit sample_heap = Inr (v, h') \<and>
      verdict v = ''True'')"
proof -
  obtain rs h' where r: "retrieve sample_store claim_deficit TOP_K sample_heap = Inr (rs, h')"
    using retrieve_returns [OF sample_search_ok_top] by blast
  from sample_top_deficit [OF r] obtain t rest where
    rs: "rs = t # rest" and tf: "objs h' t ''statement'' = Some (PyStr statement_deficit)"
    by blast
  note w = extract_numbers_unsigned [where t = claim_deficit and vs = sample_store
      and h = sample_heap and r = t and rest = rest and h' = h' and repr = sample_repr]
  have m: "''40'' \<in> set (findall_number (remove_commas claim_deficit))"
    by (simp add: claim_deficit_def remove_commas_def is_digit_def findall_number.simps(2))
  have x: "Finite 40 \<in> set (extract_numbers claim_deficit)"
    by (simp add: numbers_claim_deficit)
  from w x have "float_le (Finite 0) (Finite 40)" by blast
  moreover from w m have "CHR ''-'' \<notin> set ''40''" by blast
  moreover from w r rs tf sample_refs_ok sample_rows_ok
  have "\<exists>v. classify_claim sample_repr sample_store claim_deficit sample_heap = Inr (v, h') \<and>
      verdict v = ''True''" by blast
  ultimately show ?thesis
    using x m r rs tf sample_refs_ok sample_rows_ok by blast
qed

section \<open>Claims about the pipeline\<close>

lemma extract_claims_loop_eq:
  "extract_claims_loop ce ss claims =
     claims @ map (\<lambda>s. \<lparr>sentence = strip s, entities = ents (nlp ce s)\<rparr>)
                  (filter (qualifies ce) ss)"
  by (induction ss arbitrary: claims) (simp_all add: Let_def qualifies_def list_ex_iff)

lemma claim_of_classify_claim:
  "classify_claim repr vs c h = Inr (v, h') \<Longrightarrow> claim v = c"
  by (erule classify_claim_Inr) (erule ssubst, simp)+

lemma classify_each_Inr:
  "classify_each repr vs cs h = Inr (rs, h') \<Longrightarrow>
   list_all2 (\<lambda>c r. claim r = sentence c \<and>
      (\<exists>g g'. classify_claim repr vs (sentence c) g = Inr (r, g'))) cs rs"
proof (induction cs arbitrary: h rs)
  case Nil
  then show ?case by simp
next
  case (Cons c cs)
  from Cons.prems obtain r h1 rs' where
    a: "classify_claim repr vs (sentence c) h = Inr (r, h1)"
      "classify_each repr vs cs h1 = Inr (rs', h')" "rs = r # rs'"
    by (auto split: sum.splits)
  from Cons.IH [OF a(2)] a(1,3) show ?case
    by (auto dest: claim_of_classify_claim)
qed

lemma classify_each_returns:
  assumes "refs_ok vs h" and "rows_ok vs h"
    and "\<forall>c \<in> set cs. search_ok vs (sentence c) TOP_K"
  shows "\<exists>rs h'. classify_each repr vs cs h = Inr (rs, h') \<and> refs_ok vs h' \<and> rows_ok vs h'"
  using assms
proof (induction cs arbitrary: h)
  case Nil
  then show ?case by simp
next
  case (Cons c cs)
  from classify_claim_returns [OF Cons.prems(1,2), of "sentence c" repr] Cons.prems(3)
  obtain v h1 where
    a: "classify_claim repr vs (sentence c) h = Inr (v, h1)" "refs_ok vs h1" "rows_ok vs h1"
    by auto
  from Cons.IH [OF a(2,3)] Cons.prems(3) obtain rs h' where
    "classify_each repr vs cs h1 = Inr (rs, h')" "refs_ok vs h'" "rows_ok vs h'" by auto
  with a(1) show ?case by simp
qed

lemma classify_each_Inl:
  "classify_each repr vs cs h = Inl e \<longleftrightarrow>
   (\<exists>pre c post rs g. cs = pre @ c # post \<and>
      classify_each repr vs pre h = Inr (rs, g) \<and>
      classify_claim repr vs (sentence c) g = Inl e)"
proof (induction cs arbitrary: h)
  case Nil
  then show ?case by simp
next
  case (Cons c cs)
  show ?case
  proof (cases "classify_claim repr vs (sentence c) h")
    case (Inl e')
    show ?thesis
    proof
      assume "classify_each repr vs (c # cs) h = Inl e"
      with Inl have "e' = e" by simp
      with Inl have "c # cs = [] @ c # cs \<and> classify_each repr vs [] h = Inr ([], h) \<and>
          classify_claim repr vs (sentence c) h = Inl e" by simp
      then show "\<exists>pre c' post rs g. c # cs = pre @ c' # post \<and>
          classify_each repr vs pre h = Inr (rs, g) \<and>
          classify_claim repr vs (sentence c') g = Inl e" by blast
    next
      assume "\<exists>pre c' post rs g. c # cs = pre @ c' # post \<and>
          classify_each repr vs pre h = Inr (rs, g) \<and>
          classify_claim repr vs (sentence c') g = Inl e"
      then obtain pre c' post rs g where
        d: "c # cs = pre @ c' # post" "classify_each repr vs pre h = Inr (rs, g)"
          "classify_claim repr vs (sentence c') g = Inl e" by blast
      show "classify_each repr vs (c # cs) h = Inl e"
      proof (cases pre)
        case Nil
        with d Inl show ?thesis by simp
      next
        case (Cons p pre')
        with d Inl show ?thesis by simp
      qed
    qed
  next
    case (Inr p)
    obtain r h1 where p: "p = (r, h1)" by (cases p)
    note c1 = Inr [unfolded p]
    show ?thesis
    proof
      assume "classify_each repr vs (c # cs) h = Inl e"
      with c1 have "classify_each repr vs cs h1 = Inl e"
        by (simp split: sum.splits prod.splits)
      with Cons.IH [of h1] obtain pre c' post rs g where
        d: "cs = pre @ c' # post" "classify_each repr vs pre h1 = Inr (rs, g)"
          "classify_claim repr vs (sentence c') g = Inl e" by blast
      then have "c # cs = (c # pre) @ c' # post \<and>
          classify_each repr vs (c # pre) h = Inr (r # rs, g) \<and>
          classify_claim repr vs (sentence c') g = Inl e"
        using c1 by simp
      then show "\<exists>pre c' post rs g. c # cs = pre @ c' # post \<and>
          classify_each repr vs pre h = Inr (rs, g) \<and>
          classify_claim repr vs (sentence c') g = Inl e" by blast
    next
      assume "\<exists>pre c' post rs g. c # cs = pre @ c' # post \<and>
          classify_each repr vs pre h = Inr (rs, g) \<and>
          classify_claim repr vs (sentence c') g = Inl e"
      then obtain pre c' post rs g where
        d: "c # cs = pre @ c' # post" "classify_each repr vs pre h = Inr (rs, g)"
          "classify_claim repr vs (sentence c') g = Inl e" by blast
      show "classify_each repr vs (c # cs) h = Inl e"
      proof (cases pre)
        case Nil
        with d c1 show ?thesis by simp
      next
        case (Cons p' pre')
        with d c1 obtain rs' where
          "cs = pre' @ c' # post" "classify_each repr vs pre' h1 = Inr (rs', g)"
          by (auto split: sum.splits prod.splits)
        with d(3) Cons.IH [of h1] have "classify_each repr vs cs h1 = Inl e" by blast
        with c1 show ?thesis by simp
      qed
    qed
  qed
qed

lemmas sample_strings =
  sample_text_def claim_nba_def claim_districts_def claim_deficit_def claim_power_def
  greeting_def

lemma sample_claims:
  "extract_claims \<lparr>nlp = sample_nlp\<rparr> sample_text =
     [\<lparr>sentence = claim_nba, entities = [''NBA'', ''39.84'', ''Andhra Pradesh'']\<rparr>,
      \<lparr>sentence = claim_districts, entities = [''5'']\<rparr>,
      \<lparr>sentence = claim_deficit, entities = [''40'']\<rparr>]"
  by (simp add: extract_claims_def sample_nlp_def sample_strings strip_def py_isspace_def)

lemma greeting_claims: "extract_claims \<lparr>nlp = sample_nlp\<rparr> greeting = []"
  by (simp add: extract_claims_def sample_nlp_def sample_strings)

text \<open>
  C5. \<open>extract_claims\<close> keeps, in their order, exactly the sentences that have at least one
  recognised entity and at least one verb token, and drops the others. When no sentence of
  the text has both, \<open>extract_claims\<close> returns the empty list and \<open>fact_check_text\<close> returns
  the empty list as an ordinary result, leaving the store as it is.
\<close>

theorem extract_claims_selects:
  "extract_claims ce input =
     map (\<lambda>s. \<lparr>sentence = strip s, entities = ents (nlp ce s)\<rparr>)
       (filter (qualifies ce) (sents (nlp ce input))) \<and>
   ((\<forall>s \<in> set (sents (nlp (claim_extractor fc) input)). \<not> qualifies (claim_extractor fc) s) \<longrightarrow>
      extract_claims (claim_extractor fc) input = [] \<and>
      fact_check_text repr fc input h = Inr ([], h))"
proof (intro conjI impI)
  show "extract_claims ce input =
     map (\<lambda>s. \<lparr>sentence = strip s, entities = ents (nlp ce s)\<rparr>)
       (filter (qualifies ce) (sents (nlp ce input)))"
    by (simp add: extract_claims_def extract_claims_loop_eq)
next
  assume "\<forall>s \<in> set (sents (nlp (claim_extractor fc) input)). \<not> qualifies (claim_extractor fc) s"
  then have "filter (qualifies (claim_extractor fc)) (sents (nlp (claim_extractor fc) input)) = []"
    by (simp add: filter_empty_conv)
  then show "extract_claims (claim_extractor fc) input = []"
    by (simp add: extract_claims_def extract_claims_loop_eq)
  then show "fact_check_text repr fc input h = Inr ([], h)"
    by (simp add: fact_check_text_def)
qed

theorem extract_claims_selects_witness:
  "sents (nlp (claim_extractor sample_checker) greeting) = [greeting] \<and>
   \<not> qualifies (claim_extractor sample_checker) greeting \<and>
   extract_claims (claim_extractor sample_checker) greeting = [] \<and>
   fact_check_text sample_repr sample_checker greeting sample_heap = Inr ([], sample_heap)"
proof -
  have s: "sents (nlp (claim_extractor sample_checker) greeting) = [greeting]"
    by (simp add: sample_checker_def sample_nlp_def sample_strings)
  have q: "\<not> qualifies (claim_extractor sample_checker) greeting"
    by (simp add: qualifies_def sample_checker_def sample_nlp_def sample_strings)
  from extract_claims_selects
    [where fc = sample_checker and input = greeting and repr = sample_repr and h = sample_heap]
  show ?thesis using s q by simp
qed

text \<open>
  C6. The list returned by \<open>fact_check_text\<close> has one record for each extracted claim, in
  the order of the claims, which is the order of their sentences in the text; the record of a
  claim is a result of \<open>classify_claim\<close> on its sentence and has that sentence as its
  \<open>claim\<close>. On a well-formed store the call returns such a list.
\<close>

theorem fact_check_text_order:
  "(fact_check_text repr fc input h = Inr (rs, h') \<longrightarrow>
      map claim rs = map sentence (extract_claims (claim_extractor fc) input) \<and>
      list_all2 (\<lambda>c r. \<exists>g g'. classify_claim repr (vector_store fc) (sentence c) g = Inr (r, g'))
        (extract_claims (claim_extractor fc) input) rs) \<and>
   (refs_ok (vector_store fc) h \<and> rows_ok (vector_store fc) h \<and>
    (\<forall>c \<in> set (extract_claims (claim_extractor fc) input).
       search_ok (vector_store fc) (sentence c) TOP_K) \<longrightarrow>
      (\<exists>rs h'. fact_check_text repr fc input h = Inr (rs, h')))"
proof (intro conjI impI)
  assume a: "fact_check_text repr fc input h = Inr (rs, h')"
  define cs where "cs = extract_claims (claim_extractor fc) input"
  have l: "list_all2 (\<lambda>c r. claim r = sentence c \<and>
      (\<exists>g g'. classify_claim repr (vector_store fc) (sentence c) g = Inr (r, g'))) cs rs"
  proof (cases "cs = []")
    case True
    with a show ?thesis by (simp add: fact_check_text_def cs_def)
  next
    case False
    with a have "classify_each repr (vector_store fc) cs h = Inr (rs, h')"
      by (simp add: fact_check_text_def cs_def Let_def)
    then show ?thesis by (rule classify_each_Inr)
  qed
  then have "list_all2 (\<lambda>c r. claim r = sentence c) cs rs"
    by (rule list_all2_mono) simp
  then show "map claim rs = map sentence (extract_claims (claim_extractor fc) input)"
    unfolding cs_def [symmetric]
    by (induction cs rs rule: list_all2_induct) simp_all
  from l show "list_all2
      (\<lambda>c r. \<exists>g g'. classify_claim repr (vector_store fc) (sentence c) g = Inr (r, g'))
      (extract_claims (claim_extractor fc) input) rs"
    unfolding cs_def [symmetric] by (rule list_all2_mono) simp
next
  assume a: "refs_ok (vector_store fc) h \<and> rows_ok (vector_store fc) h \<and>
    (\<forall>c \<in> set (extract_claims (claim_extractor fc) input).
       search_ok (vector_store fc) (sentence c) TOP_K)"
  then obtain rs h' where
    "classify_each repr (vector_store fc) (extract_claims (claim_extractor fc) input) h
       = Inr (rs, h')"
    using classify_each_returns
      [of "vector_store fc" h "extract_claims (claim_extractor fc) input" repr]
    by blast
  then show "\<exists>rs h'. fact_check_text repr fc input h = Inr (rs, h')"
    by (simp add: fact_check_text_def Let_def)
qed

theorem fact_check_text_order_witness:
  "refs_ok (vector_store sample_checker) sample_heap \<and>
   rows_ok (vector_store sample_checker) sample_heap \<and>
   search_ok (vector_store sample_checker) claim_nba TOP_K \<and>
   search_ok (vector_store sample_checker) claim_districts TOP_K \<and>
   search_ok (vector_store sample_checker) claim_deficit TOP_K \<and>
   map sentence (extract_claims (claim_extractor sample_checker) sample_text) =
     [claim_nba, claim_districts, claim_deficit] \<and>
   (\<exists>rs h'. fact_check_text sample_repr sample_checker sample_text sample_heap = Inr (rs, h') \<and>
      map claim rs = [claim_nba, claim_districts, claim_deficit])"
proof -
  have v: "vector_store sample_checker = sample_store"
    and e: "claim_extractor sample_checker = \<lparr>nlp = sample_nlp\<rparr>"
    by (simp_all add: sample_checker_def)
  note ok = sample_refs_ok sample_rows_ok sample_search_ok_top
  have cs: "map sentence (extract_claims (claim_extractor sample_checker) sample_text) =
     [claim_nba, claim_districts, claim_deficit]"
    by (simp add: e sample_claims)
  have s: "\<forall>c \<in> set (extract_claims (claim_extractor sample_checker) sample_text).
       search_ok (vector_store sample_checker) (sentence c) TOP_K"
    by (simp add: v ok)
  have "refs_ok (vector_store sample_checker) sample_heap \<and>
      rows_ok (vector_store sample_checker) sample_heap \<and>
      (\<forall>c \<in> set (extract_claims (claim_extractor sample_checker) sample_text).
         search_ok (vector_store sample_checker) (sentence c) TOP_K)"
    using ok s by (simp add: v)
  with fact_check_text_order
      [where fc = sample_checker and input = sample_text and repr = sample_repr
         and h = sample_heap]
  obtain rs h' where
    r: "fact_check_text sample_repr sample_checker sample_text sample_heap = Inr (rs, h')"
    by blast
  from fact_check_text_order
      [where fc = sample_checker and input = sample_text and repr = sample_repr
         and h = sample_heap and rs = rs and h' = h'] r cs
  have "map claim rs = [claim_nba, claim_districts, claim_deficit]" by simp
  with r cs ok show ?thesis by (auto simp: v)
qed

subsection \<open>Failures\<close>

lemma stale_ok:
  "refs_ok stale_store sample_heap" "rows_ok stale_store sample_heap"
  "search_ok stale_store claim_nba TOP_K" "search_ok stale_store claim_districts TOP_K"
  by (simp_all add: refs_ok_def rows_ok_def has_statement_def search_ok_def valid_index_def
      stale_store_def sample_heap_def sample_row_def sample_search_def sample_ranking_def
      TOP_K_def sample_strings)

lemma stale_deficit: "classify_claim repr stale_store claim_deficit g = Inl IndexError"
proof -
  have "retrieve stale_store claim_deficit TOP_K g = Inl IndexError"
    by (simp add: retrieve_def stale_store_def sample_search_def sample_ranking_def
        sample_distances_def TOP_K_def py_index_def sample_strings)
  then show ?thesis by (rule classify_claim_error)
qed

lemma stale_first_two:
  "\<exists>rs g. classify_each repr stale_store
     [\<lparr>sentence = claim_nba, entities = [''NBA'', ''39.84'', ''Andhra Pradesh'']\<rparr>,
      \<lparr>sentence = claim_districts, entities = [''5'']\<rparr>] sample_heap = Inr (rs, g)"
  using classify_each_returns [OF stale_ok(1,2), of _ repr] stale_ok(3,4)
  by (metis claim.select_convs(1) set_ConsD empty_iff empty_set)

text \<open>
  C3 does not hold as it is stated. Against the stale store the first two claims of the sample
  text are classified, the classification of the third raises \<open>IndexError\<close> (the index
  ranks first the statement that the metadata file lacks), and
  \<open>fact_check_text\<close> raises \<open>IndexError\<close> instead of returning the records of the other
  claims with an \<open>Unverifiable\<close> record for the third.
\<close>

theorem fact_check_text_not_isolated:
  "map sentence (extract_claims (claim_extractor stale_checker) sample_text) =
     [claim_nba, claim_districts, claim_deficit] \<and>
   \<not> isl (classify_claim sample_repr (vector_store stale_checker) claim_nba sample_heap) \<and>
   \<not> isl (classify_claim sample_repr (vector_store stale_checker) claim_districts sample_heap) \<and>
   classify_claim sample_repr (vector_store stale_checker) claim_deficit sample_heap
     = Inl IndexError \<and>
   fact_check_text sample_repr stale_checker sample_text sample_heap = Inl IndexError"
proof -
  have v: "vector_store stale_checker = stale_store"
    and e: "claim_extractor stale_checker = \<lparr>nlp = sample_nlp\<rparr>"
    by (simp_all add: stale_checker_def)
  have "\<not> isl (classify_claim sample_repr stale_store claim_nba sample_heap)"
    using classify_claim_returns [OF stale_ok(1,2,3), of sample_repr] by auto
  moreover have "\<not> isl (classify_claim sample_repr stale_store claim_districts sample_heap)"
    using classify_claim_returns [OF stale_ok(1,2,4), of sample_repr] by auto
  moreover obtain rs g where "classify_each sample_repr stale_store
     [\<lparr>sentence = claim_nba, entities = [''NBA'', ''39.84'', ''Andhra Pradesh'']\<rparr>,
      \<lparr>sentence = claim_districts, entities = [''5'']\<rparr>] sample_heap = Inr (rs, g)"
    using stale_first_two by blast
  then have "classify_each sample_repr stale_store
     ([\<lparr>sentence = claim_nba, entities = [''NBA'', ''39.84'', ''Andhra Pradesh'']\<rparr>,
       \<lparr>sentence = claim_districts, entities = [''5'']\<rparr>]
      @ \<lparr>sentence = claim_deficit, entities = [''40'']\<rparr> # []) sample_heap = Inl IndexError"
    unfolding classify_each_Inl using stale_deficit [of sample_repr g]
    by (metis claim.select_convs(1))
  then have "fact_check_text sample_repr stale_checker sample_text sample_heap = Inl IndexError"
    by (simp add: fact_check_text_def v e sample_claims)
  ultimately show ?thesis
    by (simp add: v e sample_claims stale_deficit)
qed

text \<open>
  C3, amended. A failure raised while a claim is classified is not caught.
  \<open>fact_check_text\<close> raises an error exactly when the classification of some claim raises it
  after the classifications of all the claims before it have returned, and then it returns
  no list of records.
\<close>

theorem fact_check_text_propagates:
  "fact_check_text repr fc input h = Inl e \<longleftrightarrow>
   (\<exists>pre c post rs g.
      extract_claims (claim_extractor fc) input = pre @ c # post \<and>
      classify_each repr (vector_store fc) pre h = Inr (rs, g) \<and>
      classify_claim repr (vector_store fc) (sentence c) g = Inl e)"
proof (cases "extract_claims (claim_extractor fc) input = []")
  case True
  then show ?thesis by (simp add: fact_check_text_def)
next
  case False
  then have "fact_check_text repr fc input h =
      classify_each repr (vector_store fc) (extract_claims (claim_extractor fc) input) h"
    by (simp add: fact_check_text_def Let_def)
  then show ?thesis by (simp only: classify_each_Inl)
qed

theorem fact_check_text_propagates_witness:
  "extract_claims (claim_extractor stale_checker) sample_text =
     [\<lparr>sentence = claim_nba, entities = [''NBA'', ''39.84'', ''Andhra Pradesh'']\<rparr>,
      \<lparr>sentence = claim_districts, entities = [''5'']\<rparr>]
     @ \<lparr>sentence = claim_deficit, entities = [''40'']\<rparr> # [] \<and>
   (\<exists>rs g. classify_each sample_repr (vector_store stale_checker)
       [\<lparr>sentence = claim_nba, entities = [''NBA'', ''39.84'', ''Andhra Pradesh'']\<rparr>,
        \<lparr>sentence = claim_districts, entities = [''5'']\<rparr>] sample_heap = Inr (rs, g) \<and>
      classify_claim sample_repr (vector_store stale_checker)
        (sentence \<lparr>sentence = claim_deficit, entities = [''40'']\<rparr>) g = Inl IndexError) \<and>
   fact_check_text sample_repr stale_checker sample_text sample_heap = Inl IndexError"
proof -
  have v: "vector_store stale_checker = stale_store"
    and e: "claim_extractor stale_checker = \<lparr>nlp = sample_nlp\<rparr>"
    by (simp_all add: stale_checker_def)
  have cs: "extract_claims (claim_extractor stale_checker) sample_text =
     [\<lparr>sentence = claim_nba, entities = [''NBA'', ''39.84'', ''Andhra Pradesh'']\<rparr>,
      \<lparr>sentence = claim_districts, entities = [''5'']\<rparr>]
     @ \<lparr>sentence = claim_deficit, entities = [''40'']\<rparr> # []"
    by (simp add: e sample_claims)
  obtain rs g where p: "classify_each sample_repr (vector_store stale_checker)
       [\<lparr>sentence = claim_nba, entities = [''NBA'', ''39.84'', ''Andhra Pradesh'']\<rparr>,
        \<lparr>sentence = claim_districts, entities = [''5'']\<rparr>] sample_heap = Inr (rs, g)"
    using stale_first_two [of sample_repr] by (auto simp: v)
  have f: "classify_claim sample_repr (vector_store stale_checker)
        (sentence \<lparr>sentence = claim_deficit, entities = [''40'']\<rparr>) g = Inl IndexError"
    by (simp add: v stale_deficit)
  from cs p f
  have "fact_check_text sample_repr stale_checker sample_text sample_heap = Inl IndexError"
    unfolding fact_check_text_propagates by blast
  with cs p f show ?thesis by blast
qed

end
